theory Spec2Isabelle
  imports Main "HOL-Library.Sublist"
begin

section \<open>pycinante-lite: a shallow embedding of \<^verbatim>\<open>pycinante/__init__.py\<close>\<close>

text \<open>
  The module is a handful of helpers over \<^verbatim>\<open>os.path\<close>, \<^verbatim>\<open>os.makedirs\<close>, \<^verbatim>\<open>re.sub\<close>
  and \<^verbatim>\<open>json\<close>. The helpers are translated line by line; the library functions they
  call are translated from CPython 3.11 (\<^verbatim>\<open>posixpath.py\<close>, \<^verbatim>\<open>genericpath.py\<close>,
  \<^verbatim>\<open>os.py\<close>) for the POSIX platform, where the separator is \<^verbatim>\<open>/\<close>.
  A Python \<^verbatim>\<open>str\<close> is a \<open>string\<close>.
\<close>

subsection \<open>String primitives of Python\<close>

definition sep :: char where
  "sep = CHR ''/''"

definition extsep :: char where
  "extsep = CHR ''.''"

text \<open>\<^verbatim>\<open>s.rfind(c)\<close> for a one-character \<^verbatim>\<open>c\<close>: the highest index of \<^verbatim>\<open>c\<close>, or -1.\<close>

definition rfind :: "string \<Rightarrow> char \<Rightarrow> int" where
  "rfind s c =
     (if c \<in> set s then int (length s) - 1 - int (length (takeWhile (\<lambda>x. x \<noteq> c) (rev s)))
      else - 1)"

text \<open>
  The slices \<^verbatim>\<open>s[:i]\<close> and \<^verbatim>\<open>s[i:]\<close>: a negative index counts from the end and is
  clipped at 0.
\<close>

definition slice_to :: "string \<Rightarrow> int \<Rightarrow> string" where
  "slice_to s i = take (nat (if i < 0 then int (length s) + i else i)) s"

definition slice_from :: "string \<Rightarrow> int \<Rightarrow> string" where
  "slice_from s i = drop (nat (if i < 0 then int (length s) + i else i)) s"

text \<open>\<^verbatim>\<open>s[i:i+1]\<close> for \<^verbatim>\<open>i >= 0\<close>: the character at \<^verbatim>\<open>i\<close>, or the empty string.\<close>

definition char_at :: "string \<Rightarrow> int \<Rightarrow> string" where
  "char_at s i = take 1 (slice_from s i)"

definition startswith :: "string \<Rightarrow> char \<Rightarrow> bool" where
  "startswith s c = (case s of [] \<Rightarrow> False | x # _ \<Rightarrow> x = c)"

definition endswith :: "string \<Rightarrow> char \<Rightarrow> bool" where
  "endswith s c = (case rev s of [] \<Rightarrow> False | x # _ \<Rightarrow> x = c)"

definition rstrip :: "string \<Rightarrow> char \<Rightarrow> string" where
  "rstrip s c = rev (dropWhile (\<lambda>x. x = c) (rev s))"

subsection \<open>\<^verbatim>\<open>posixpath\<close>: join, split, basename, splitext\<close>

text \<open>
  One round of the loop of \<^verbatim>\<open>posixpath.join\<close>:
  \<^verbatim>\<open>
  if b.startswith(sep):              path = b
  elif not path or path.endswith(sep): path += b
  else:                              path += sep + b
  \<close>
\<close>

definition join_step :: "string \<Rightarrow> string \<Rightarrow> string" where
  "join_step path b =
     (if startswith b sep then b
      else if path = [] \<or> endswith path sep then path @ b
      else path @ sep # b)"

definition posixpath_join :: "string \<Rightarrow> string list \<Rightarrow> string" where
  "posixpath_join a p = foldl join_step a p"

text \<open>
  \<^verbatim>\<open>
  def split(p):
      i = p.rfind(sep) + 1
      head, tail = p[:i], p[i:]
      if head and head != sep*len(head):
          head = head.rstrip(sep)
      return head, tail
  \<close>
\<close>

definition posixpath_split :: "string \<Rightarrow> string \<times> string" where
  "posixpath_split p =
     (let i = rfind p sep + 1;
          head = slice_to p i;
          tail = slice_from p i
      in (if head \<noteq> [] \<and> head \<noteq> replicate (length head) sep then rstrip head sep else head,
          tail))"

definition posixpath_basename :: "string \<Rightarrow> string" where
  "posixpath_basename p = slice_from p (rfind p sep + 1)"

text \<open>
  The loop of \<^verbatim>\<open>genericpath._splitext\<close> that skips the leading dots of the last
  component:
  \<^verbatim>\<open>
  while filenameIndex < dotIndex:
      if p[filenameIndex:filenameIndex+1] != extsep:
          return p[:dotIndex], p[dotIndex:]
      filenameIndex += 1
  return p, p[:0]
  \<close>
\<close>

function splitext_loop :: "string \<Rightarrow> int \<Rightarrow> int \<Rightarrow> string \<times> string" where
  "splitext_loop p dotIndex filenameIndex =
     (if filenameIndex < dotIndex then
        (if char_at p filenameIndex \<noteq> [extsep] then (slice_to p dotIndex, slice_from p dotIndex)
         else splitext_loop p dotIndex (filenameIndex + 1))
      else (p, []))"
  by pat_completeness auto
termination
  by (relation "measure (\<lambda>(p, dotIndex, filenameIndex). nat (dotIndex - filenameIndex))") auto

text \<open>
  \<^verbatim>\<open>posixpath.splitext\<close> calls \<^verbatim>\<open>_splitext(p, '/', None, '.')\<close>: with no alternative
  separator,
  \<^verbatim>\<open>
  sepIndex = p.rfind(sep)
  dotIndex = p.rfind(extsep)
  if dotIndex > sepIndex:
      filenameIndex = sepIndex + 1
      (the loop)
  return p, p[:0]
  \<close>
\<close>

definition posixpath_splitext :: "string \<Rightarrow> string \<times> string" where
  "posixpath_splitext p =
     (let sepIndex = rfind p sep;
          dotIndex = rfind p extsep
      in if dotIndex > sepIndex then splitext_loop p dotIndex (sepIndex + 1) else (p, []))"

subsection \<open>\<^verbatim>\<open>get_filename\<close> and \<^verbatim>\<open>get_ext\<close>\<close>

text \<open>\<^verbatim>\<open>return os.path.basename(os.path.splitext(pathname)[0])\<close>\<close>

definition get_filename :: "string \<Rightarrow> string" where
  "get_filename pathname = posixpath_basename (fst (posixpath_splitext pathname))"

text \<open>\<^verbatim>\<open>return os.path.splitext(pathname)[1]\<close>\<close>

definition get_ext :: "string \<Rightarrow> string" where
  "get_ext pathname = snd (posixpath_splitext pathname)"

subsection \<open>\<^verbatim>\<open>normalize_path\<close>\<close>

text \<open>
  The character class of the pattern \<^verbatim>\<open>[<>:"/\\|?*\x00-\x1F\x7F]\<close>: nine punctuation
  characters, the control codes 0x00 to 0x1F, and 0x7F.
\<close>

definition reserved :: "char \<Rightarrow> bool" where
  "reserved c =
     (c \<in> set [CHR ''<'', CHR ''>'', CHR '':'', CHR 0x22, CHR ''/'', CHR 0x5C, CHR ''|'',
                CHR ''?'', CHR ''*'']
      \<or> (of_char c :: nat) \<le> 0x1F \<or> (of_char c :: nat) = 0x7F)"

text \<open>
  \<^verbatim>\<open>re.sub(pattern, repl, string)\<close> for a pattern that is one character class: every
  character of the class is a match (matches are single characters and cannot overlap),
  and each match is replaced by \<^verbatim>\<open>repl\<close>. A \<^verbatim>\<open>repl\<close> without a backslash is taken
  literally. A \<^verbatim>\<open>repl\<close> with a backslash is a replacement template of \<^verbatim>\<open>re\<close> (escapes,
  group references, or a \<^verbatim>\<open>re.error\<close>); the template language is not part of this
  development, and the result there is \<open>None\<close>.
\<close>

definition re_sub_class :: "(char \<Rightarrow> bool) \<Rightarrow> string \<Rightarrow> string \<Rightarrow> string option" where
  "re_sub_class cls repl s =
     (if CHR 0x5C \<in> set repl then None
      else Some (concat (map (\<lambda>c. if cls c then repl else [c]) s)))"

text \<open>\<^verbatim>\<open>return re.sub(re.compile(r'[<>:"/\\|?*\x00-\x1F\x7F]'), rep, pathname)\<close>\<close>

definition normalize_path :: "string \<Rightarrow> string \<Rightarrow> string option" where
  "normalize_path pathname rep = re_sub_class reserved rep pathname"

text \<open>The default of the parameter: \<^verbatim>\<open>rep: str = ""\<close>.\<close>

definition normalize_path_default :: "string \<Rightarrow> string option" where
  "normalize_path_default pathname = normalize_path pathname []"

subsection \<open>The file system\<close>

text \<open>
  The file system is a tree of directories and files without symbolic links. A location
  is the list of names from the root; the root is always a directory. \<open>cwd\<close> is the
  location of the current directory, and \<open>writable\<close> says in which directories the
  process may create entries (search permission is not modelled).
\<close>

datatype node = Dir | File

record filesystem =
  nodes :: "string list \<Rightarrow> node option"
  cwd :: "string list"
  writable :: "string list \<Rightarrow> bool"

definition node_at :: "filesystem \<Rightarrow> string list \<Rightarrow> node option" where
  "node_at fs loc = (if loc = [] then Some Dir else nodes fs loc)"

datatype py_error =
  FileExistsError | FileNotFoundError | NotADirectoryError | PermissionError | ValueError
  | TypeError

text \<open>
  The first four are subclasses of \<^verbatim>\<open>OSError\<close>; \<^verbatim>\<open>ValueError\<close> (an embedded null
  character in a pathname) and \<^verbatim>\<open>TypeError\<close> are not.
\<close>

definition is_OSError :: "py_error \<Rightarrow> bool" where
  "is_OSError e = (e \<noteq> ValueError \<and> e \<noteq> TypeError)"

text \<open>The components of a pathname: the pieces between the separators.\<close>

fun components :: "string \<Rightarrow> string list" where
  "components [] = [[]]"
| "components (c # cs) =
     (if c = sep then [] # components cs
      else (case components cs of [] \<Rightarrow> [[c]] | x # xs \<Rightarrow> (c # x) # xs))"

text \<open>
  Pathname resolution, one component at a time: the location reached so far must be a
  directory; an empty component and \<^verbatim>\<open>.\<close> stay, \<^verbatim>\<open>..\<close> goes to the parent (the root is its
  own parent), a name goes to the entry of that name, which need not exist yet.
\<close>

definition step :: "string list \<Rightarrow> string \<Rightarrow> string list" where
  "step cur c =
     (if c = [] \<or> c = ''.'' then cur else if c = ''..'' then butlast cur else cur @ [c])"

fun walk :: "filesystem \<Rightarrow> string list \<Rightarrow> string list \<Rightarrow> py_error + string list" where
  "walk fs cur [] = Inr cur"
| "walk fs cur (c # cs) =
     (case node_at fs cur of
        None \<Rightarrow> Inl FileNotFoundError
      | Some File \<Rightarrow> Inl NotADirectoryError
      | Some Dir \<Rightarrow> walk fs (step cur c) cs)"

definition start_of :: "filesystem \<Rightarrow> string \<Rightarrow> string list" where
  "start_of fs p = (if startswith p sep then [] else cwd fs)"

text \<open>\<^verbatim>\<open>os.stat(path)\<close>, as far as the kind of the entry.\<close>

definition os_stat :: "filesystem \<Rightarrow> string \<Rightarrow> py_error + node" where
  "os_stat fs p =
     (if CHR 0x00 \<in> set p then Inl ValueError
      else if p = [] then Inl FileNotFoundError
      else (case walk fs (start_of fs p) (components p) of
              Inl e \<Rightarrow> Inl e
            | Inr loc \<Rightarrow> (case node_at fs loc of
                            None \<Rightarrow> Inl FileNotFoundError
                          | Some n \<Rightarrow> Inr n)))"

text \<open>
  \<^verbatim>\<open>genericpath.exists\<close> and \<^verbatim>\<open>genericpath.isdir\<close>: \<^verbatim>\<open>os.stat\<close> under
  \<^verbatim>\<open>except (OSError, ValueError): return False\<close>.
\<close>

definition path_exists :: "filesystem \<Rightarrow> string \<Rightarrow> bool" where
  "path_exists fs p = (case os_stat fs p of Inl e \<Rightarrow> False | Inr n \<Rightarrow> True)"

definition path_isdir :: "filesystem \<Rightarrow> string \<Rightarrow> bool" where
  "path_isdir fs p = (case os_stat fs p of Inl e \<Rightarrow> False | Inr n \<Rightarrow> n = Dir)"

text \<open>
  \<^verbatim>\<open>os.mkdir(path)\<close>: trailing separators are dropped, the parent is resolved and must
  be a directory; the last component must be a new name (\<^verbatim>\<open>.\<close> and \<^verbatim>\<open>..\<close> always exist),
  and the parent must be writable. Only the new entry changes.
\<close>

definition os_mkdir :: "filesystem \<Rightarrow> string \<Rightarrow> py_error + filesystem" where
  "os_mkdir fs p =
     (if CHR 0x00 \<in> set p then Inl ValueError
      else if p = [] then Inl FileNotFoundError
      else if rstrip p sep = [] then Inl FileExistsError
      else (case walk fs (start_of fs p) (butlast (components (rstrip p sep))) of
              Inl e \<Rightarrow> Inl e
            | Inr par \<Rightarrow>
                (case node_at fs par of
                   None \<Rightarrow> Inl FileNotFoundError
                 | Some File \<Rightarrow> Inl NotADirectoryError
                 | Some Dir \<Rightarrow>
                     (let name = last (components (rstrip p sep)) in
                      if name = ''.'' \<or> name = ''..'' then Inl FileExistsError
                      else if node_at fs (par @ [name]) \<noteq> None then Inl FileExistsError
                      else if \<not> writable fs par then Inl PermissionError
                      else Inr (fs\<lparr>nodes := (nodes fs)(par @ [name] \<mapsto> Dir),
                                   writable := (writable fs)(par @ [name] := True)\<rparr>)))))"

subsection \<open>\<^verbatim>\<open>os.makedirs\<close>\<close>

text \<open>
  \<^verbatim>\<open>
  head, tail = path.split(name)
  if not tail:
      head, tail = path.split(head)
  \<close>
\<close>

definition makedirs_parts :: "string \<Rightarrow> string \<times> string" where
  "makedirs_parts name =
     (let (head, tail) = posixpath_split name
      in if tail = [] then posixpath_split head else (head, tail))"

text \<open>
  \<^verbatim>\<open>
  try:
      mkdir(name, mode)
  except OSError:
      if not exist_ok or not path.isdir(name):
          raise
  \<close>
  The result is the file system afterwards and the exception that leaves the block, if any.
\<close>

definition mkdir_exist_ok :: "filesystem \<Rightarrow> string \<Rightarrow> bool \<Rightarrow> filesystem \<times> py_error option" where
  "mkdir_exist_ok fs name exist_ok =
     (case os_mkdir fs name of
        Inr fs' \<Rightarrow> (fs', None)
      | Inl e \<Rightarrow>
          if is_OSError e then
            (if \<not> exist_ok \<or> \<not> path_isdir fs name then (fs, Some e) else (fs, None))
          else (fs, Some e))"

lemma rfind_bounds: "- 1 \<le> rfind s c \<and> rfind s c < int (length s)"
  using length_takeWhile_le [of "\<lambda>x. x \<noteq> c" "rev s"] by (auto simp: rfind_def)

lemma split_length:
  "length (fst (posixpath_split p)) + length (snd (posixpath_split p)) \<le> length p"
proof -
  have "length (rstrip h sep) \<le> length h" for h
    using length_dropWhile_le [of "\<lambda>x. x = sep" "rev h"] by (simp add: rstrip_def)
  then have "length (fst (posixpath_split p)) \<le> length (slice_to p (rfind p sep + 1))"
    by (simp add: posixpath_split_def Let_def)
  moreover have "length (slice_to p (rfind p sep + 1)) + length (slice_from p (rfind p sep + 1)) = length p"
    using rfind_bounds [of p sep] by (simp add: slice_to_def slice_from_def)
  moreover have "snd (posixpath_split p) = slice_from p (rfind p sep + 1)"
    by (simp add: posixpath_split_def Let_def)
  ultimately show ?thesis by simp
qed

lemma makedirs_parts_shorter:
  assumes "snd (makedirs_parts name) \<noteq> []"
  shows "length (fst (makedirs_parts name)) < length name"
proof -
  define q where "q = (if snd (posixpath_split name) = [] then fst (posixpath_split name) else name)"
  have q: "length q \<le> length name"
    using split_length [of name] by (simp add: q_def)
  have "makedirs_parts name = posixpath_split q"
    by (simp add: makedirs_parts_def split_def q_def)
  then have "length (fst (makedirs_parts name)) + length (snd (makedirs_parts name)) \<le> length q"
    using split_length [of q] by simp
  then show ?thesis using q assms by (cases "snd (makedirs_parts name)") auto
qed

text \<open>
  \<^verbatim>\<open>
  def makedirs(name, mode=0o777, exist_ok=False):
      head, tail = path.split(name)
      if not tail:
          head, tail = path.split(head)
      if head and tail and not path.exists(head):
          try:
              makedirs(head, exist_ok=exist_ok)
          except FileExistsError:
              pass
          if tail == curdir:
              return
      try:
          mkdir(name, mode)
      except OSError:
          if not exist_ok or not path.isdir(name):
              raise
  \<close>
  The directories made before an exception stay: the file system is returned in both
  cases. The recursion is on a shorter name each time.
\<close>

function os_makedirs :: "filesystem \<Rightarrow> string \<Rightarrow> bool \<Rightarrow> filesystem \<times> py_error option" where
  "os_makedirs fs name exist_ok =
     (if fst (makedirs_parts name) \<noteq> [] \<and> snd (makedirs_parts name) \<noteq> []
         \<and> \<not> path_exists fs (fst (makedirs_parts name)) then
        (case os_makedirs fs (fst (makedirs_parts name)) exist_ok of
           (fs1, Some e) \<Rightarrow>
             if e = FileExistsError then
               (if snd (makedirs_parts name) = ''.'' then (fs1, None)
                else mkdir_exist_ok fs1 name exist_ok)
             else (fs1, Some e)
         | (fs1, None) \<Rightarrow>
             if snd (makedirs_parts name) = ''.'' then (fs1, None)
             else mkdir_exist_ok fs1 name exist_ok)
      else mkdir_exist_ok fs name exist_ok)"
  by pat_completeness auto
termination
  by (relation "measure (\<lambda>(fs, name, exist_ok). length name)")
    (auto intro: makedirs_parts_shorter)

declare os_makedirs.simps [simp del]

subsection \<open>\<^verbatim>\<open>PathBuilder\<close>\<close>

text \<open>
  Instances live in a store: the address of an instance is its index in \<open>objects\<close>,
  and a new instance gets the first free address. The world is the file system and the
  store.
\<close>

record PathBuilder =
  path :: string

record world =
  fsys :: filesystem
  objects :: "PathBuilder list"

text \<open>
  The call \<^verbatim>\<open>PathBuilder(*names)\<close>: a new instance is allocated and \<^verbatim>\<open>__init__\<close> runs on it,
  \<^verbatim>\<open>
  self.path = str(os.path.join(*(names or ('.',))))
  os.makedirs(self.path, exist_ok=True)
  \<close>
  The result is the address of the instance, or the exception of \<^verbatim>\<open>makedirs\<close>.
\<close>

definition PathBuilder_init :: "world \<Rightarrow> string list \<Rightarrow> world \<times> (py_error + nat)" where
  "PathBuilder_init w names =
     (let ns = (if names = [] then [''.''] else names);
          self = length (objects w);
          w1 = w\<lparr>objects := objects w @ [\<lparr>path = posixpath_join (hd ns) (tl ns)\<rparr>]\<rparr>;
          r = os_makedirs (fsys w1) (path (objects w1 ! self)) True
      in (w1\<lparr>fsys := fst r\<rparr>, case snd r of None \<Rightarrow> Inr self | Some e \<Rightarrow> Inl e))"

text \<open>\<^verbatim>\<open>return PathBuilder(os.path.join(self.path, pathname))\<close>\<close>

definition PathBuilder_truediv :: "world \<Rightarrow> nat \<Rightarrow> string \<Rightarrow> world \<times> (py_error + nat)" where
  "PathBuilder_truediv w self pathname =
     PathBuilder_init w [posixpath_join (path (objects w ! self)) [pathname]]"

text \<open>\<^verbatim>\<open>return os.path.join(self.path, basename)\<close>\<close>

definition PathBuilder_add :: "world \<Rightarrow> nat \<Rightarrow> string \<Rightarrow> world \<times> string" where
  "PathBuilder_add w self basename = (w, posixpath_join (path (objects w ! self)) [basename])"

subsection \<open>A small world for concrete runs\<close>

text \<open>
  The root holds the directory \<^verbatim>\<open>/tmp\<close>, the current directory is the root, every
  directory is writable, and one instance exists, for \<^verbatim>\<open>/tmp\<close>.
\<close>

definition demo_fs :: filesystem where
  "demo_fs = \<lparr>nodes = (\<lambda>_. None)([''tmp''] \<mapsto> Dir), cwd = [], writable = (\<lambda>_. True)\<rparr>"

definition demo_world :: world where
  "demo_world = \<lparr>fsys = demo_fs, objects = [\<lparr>path = ''/tmp''\<rparr>]\<rparr>"

subsection \<open>\<^verbatim>\<open>listify\<close>\<close>

text \<open>
  The values \<^verbatim>\<open>listify\<close> is tried on: \<^verbatim>\<open>None\<close>, integers, strings, tuples, ranges, lists,
  iterators (generators, \<^verbatim>\<open>itertools.count()\<close>, ...) and old-style sequences. Lists and
  iterators are mutable objects with an identity: the value is an address into the heap,
  which holds the elements of every list and, for every iterator, what its successive
  \<^verbatim>\<open>next\<close> calls give (\<open>None\<close> for \<^verbatim>\<open>StopIteration\<close>). A list is created at the first free
  address.

  An old-style sequence \<open>PSeq xs\<close> is an instance of a class that defines \<^verbatim>\<open>__getitem__\<close>
  and no \<^verbatim>\<open>__iter__\<close>, such as
  \<^verbatim>\<open>
  class G:
      def __getitem__(self, i): return xs[i]
  \<close>
  \<^verbatim>\<open>iter\<close> accepts it (it calls \<^verbatim>\<open>__getitem__\<close> with 0, 1, ... until \<^verbatim>\<open>IndexError\<close>), but it
  is no instance of \<^verbatim>\<open>collections.abc.Iterable\<close>, whose test is the presence of \<^verbatim>\<open>__iter__\<close>.
\<close>

datatype pyobj =
    PNone
  | PInt int
  | PStr string
  | PTuple "pyobj list"
  | PRange int int int
  | PList nat
  | PIter nat
  | PSeq "pyobj list"

record pyheap =
  lists :: "pyobj list list"
  iters :: "(nat \<Rightarrow> pyobj option) list"

definition isinstance_list :: "pyobj \<Rightarrow> bool" where
  "isinstance_list obj = (case obj of PList a \<Rightarrow> True | _ \<Rightarrow> False)"

definition isinstance_str :: "pyobj \<Rightarrow> bool" where
  "isinstance_str obj = (case obj of PStr s \<Rightarrow> True | _ \<Rightarrow> False)"

text \<open>\<^verbatim>\<open>isinstance(obj, Iterable)\<close>: the class has \<^verbatim>\<open>__iter__\<close>.\<close>

definition isinstance_Iterable :: "pyobj \<Rightarrow> bool" where
  "isinstance_Iterable obj =
     (case obj of PNone \<Rightarrow> False | PInt n \<Rightarrow> False | PSeq xs \<Rightarrow> False | _ \<Rightarrow> True)"

text \<open>\<^verbatim>\<open>len(range(start, stop, step))\<close> and the elements of the range, for \<^verbatim>\<open>step != 0\<close>.\<close>

definition range_len :: "int \<Rightarrow> int \<Rightarrow> int \<Rightarrow> nat" where
  "range_len start stop stp =
     (if stp > 0 \<and> start < stop then nat ((stop - start - 1) div stp + 1)
      else if stp < 0 \<and> stop < start then nat ((start - stop - 1) div (- stp) + 1)
      else 0)"

definition range_elems :: "int \<Rightarrow> int \<Rightarrow> int \<Rightarrow> int list" where
  "range_elems start stop stp = map (\<lambda>i. start + int i * stp) [0..<range_len start stop stp]"

definition nth_or_stop :: "'a list \<Rightarrow> nat \<Rightarrow> 'a option" where
  "nth_or_stop xs k = (if k < length xs then Some (xs ! k) else None)"

text \<open>
  \<^verbatim>\<open>iter(obj)\<close>: what the successive \<^verbatim>\<open>next\<close> calls give, or \<^verbatim>\<open>TypeError\<close> for an object
  that has neither \<^verbatim>\<open>__iter__\<close> nor \<^verbatim>\<open>__getitem__\<close>.
\<close>

definition py_iter :: "pyheap \<Rightarrow> pyobj \<Rightarrow> py_error + (nat \<Rightarrow> pyobj option)" where
  "py_iter h obj =
     (case obj of
        PNone \<Rightarrow> Inl TypeError
      | PInt n \<Rightarrow> Inl TypeError
      | PStr s \<Rightarrow> Inr (nth_or_stop (map (\<lambda>c. PStr [c]) s))
      | PTuple xs \<Rightarrow> Inr (nth_or_stop xs)
      | PRange start stop stp \<Rightarrow> Inr (nth_or_stop (map PInt (range_elems start stop stp)))
      | PList a \<Rightarrow> Inr (nth_or_stop (lists h ! a))
      | PIter a \<Rightarrow> Inr (iters h ! a)
      | PSeq xs \<Rightarrow> Inr (nth_or_stop xs))"

text \<open>
  The loop of \<^verbatim>\<open>list(obj)\<close>: call \<^verbatim>\<open>next\<close> and append until \<^verbatim>\<open>StopIteration\<close>. On an
  iterator that never stops the loop never ends: the result is \<open>None\<close>.
\<close>

partial_function (option) drain :: "(nat \<Rightarrow> pyobj option) \<Rightarrow> nat \<Rightarrow> pyobj list \<Rightarrow> pyobj list option" where
  "drain nxt k acc =
     (case nxt k of None \<Rightarrow> Some acc | Some v \<Rightarrow> drain nxt (Suc k) (acc @ [v]))"

declare drain.simps [code]

text \<open>The elements produced by iterating \<open>obj\<close>, when the iteration ends.\<close>

definition iteration :: "pyheap \<Rightarrow> pyobj \<Rightarrow> pyobj list option" where
  "iteration h obj = (case py_iter h obj of Inl e \<Rightarrow> None | Inr nxt \<Rightarrow> drain nxt 0 [])"

text \<open>Iterating an iterator to its end leaves it exhausted; other objects are not changed.\<close>

definition exhausted :: "pyheap \<Rightarrow> pyobj \<Rightarrow> pyheap" where
  "exhausted h obj =
     (case obj of PIter a \<Rightarrow> h\<lparr>iters := (iters h)[a := (\<lambda>k. None)]\<rparr> | _ \<Rightarrow> h)"

text \<open>
  \<^verbatim>\<open>list(obj)\<close>: a new list of the elements of the iteration. The outer \<open>None\<close> is a call
  that does not return.
\<close>

definition py_list :: "pyheap \<Rightarrow> pyobj \<Rightarrow> (py_error + pyheap \<times> pyobj) option" where
  "py_list h obj =
     (case py_iter h obj of
        Inl e \<Rightarrow> Some (Inl e)
      | Inr nxt \<Rightarrow>
          (case drain nxt 0 [] of
             None \<Rightarrow> None
           | Some xs \<Rightarrow>
               Some (Inr ((exhausted h obj)\<lparr>lists := lists (exhausted h obj) @ [xs]\<rparr>,
                          PList (length (lists (exhausted h obj)))))))"

text \<open>
  \<^verbatim>\<open>
  if isinstance(obj, list):
      return obj
  if not isinstance(obj, str) and isinstance(obj, Iterable):
      return list(obj)
  return [obj]
  \<close>
\<close>

definition listify :: "pyheap \<Rightarrow> pyobj \<Rightarrow> (py_error + pyheap \<times> pyobj) option" where
  "listify h obj =
     (if isinstance_list obj then Some (Inr (h, obj))
      else if \<not> isinstance_str obj \<and> isinstance_Iterable obj then py_list h obj
      else Some (Inr (h\<lparr>lists := lists h @ [[obj]]\<rparr>, PList (length (lists h)))))"

text \<open>A heap with one list, \<^verbatim>\<open>[7, 8]\<close>, and one iterator, \<^verbatim>\<open>itertools.count()\<close>.\<close>

definition demo_heap :: pyheap where
  "demo_heap = \<lparr>lists = [[PInt 7, PInt 8]], iters = [\<lambda>k. Some (PInt (int k))]\<rparr>"

subsection \<open>Well-formed file systems\<close>

text \<open>
  In a file system that is a tree, every entry lies in a directory: the location above an
  entry holds a directory.
\<close>

definition well_formed :: "filesystem \<Rightarrow> bool" where
  "well_formed fs = (\<forall>l. l \<noteq> [] \<longrightarrow> nodes fs l \<noteq> None \<longrightarrow> node_at fs (butlast l) = Some Dir)"

text \<open>
  \<open>grows fs fs'\<close>: from \<open>fs\<close> to \<open>fs'\<close> nothing changed but that directories were
  added at locations that were free.
\<close>

definition grows :: "filesystem \<Rightarrow> filesystem \<Rightarrow> bool" where
  "grows fs fs' =
     (cwd fs' = cwd fs
      \<and> (\<forall>l. node_at fs' l = node_at fs l \<or> node_at fs l = None \<and> node_at fs' l = Some Dir))"

text \<open>The components that name an entry: not empty, not \<^verbatim>\<open>.\<close>\<close>

definition normal :: "string \<Rightarrow> bool" where
  "normal c = (c \<noteq> [] \<and> c \<noteq> ''.'')"



section \<open>Facts about the string primitives\<close>

lemma rfind_notin: "c \<notin> set s \<Longrightarrow> rfind s c = - 1"
  by (simp add: rfind_def)

lemma takeWhile_stop: "c \<notin> set b \<Longrightarrow> takeWhile (\<lambda>x. x \<noteq> c) (b @ c # a) = b"
  by (induction b) auto

lemma rfind_last: "c \<notin> set b \<Longrightarrow> rfind (a @ c # b) c = int (length a)"
proof -
  assume h: "c \<notin> set b"
  have "takeWhile (\<lambda>x. x \<noteq> c) (rev b @ c # rev a) = rev b"
    using h takeWhile_stop [of c "rev b" "rev a"] by simp
  then show ?thesis by (simp add: rfind_def)
qed

lemma slice_from_rfind: "slice_from p (rfind p c + 1) = rev (takeWhile (\<lambda>x. x \<noteq> c) (rev p))"
proof (cases "c \<in> set p")
  case True
  then obtain a b where p: "p = a @ c # b" and nb: "c \<notin> set b"
    by (meson split_list_last)
  have tw: "takeWhile (\<lambda>x. x \<noteq> c) (rev b @ c # rev a) = rev b"
    using nb takeWhile_stop [of c "rev b" "rev a"] by simp
  have n: "nat (int (length a) + 1) = Suc (length a)" by simp
  show ?thesis using rfind_last [OF nb, of a] tw by (simp add: p slice_from_def n)
next
  case False
  then have tw: "takeWhile (\<lambda>x. x \<noteq> c) (rev p) = rev p"
    by auto
  show ?thesis unfolding tw using False by (simp add: rfind_notin slice_from_def)
qed

lemma basename_alt: "posixpath_basename p = rev (takeWhile (\<lambda>x. x \<noteq> sep) (rev p))"
  by (simp add: posixpath_basename_def slice_from_rfind)

lemma splitext_loop_cases:
  "splitext_loop p d i = (slice_to p d, slice_from p d) \<or> splitext_loop p d i = (p, [])"
  by (induction p d i rule: splitext_loop.induct) (simp del: splitext_loop.simps add: splitext_loop.simps [of p d i for p d i])


lemma basename_append:
  "sep \<notin> set b \<Longrightarrow> posixpath_basename (a @ b) = posixpath_basename a @ b"
proof -
  assume h: "sep \<notin> set b"
  have "takeWhile (\<lambda>x. x \<noteq> sep) (rev b @ rev a) = rev b @ takeWhile (\<lambda>x. x \<noteq> sep) (rev a)"
    using h by (intro takeWhile_append2) auto
  then show ?thesis by (simp add: basename_alt)
qed

lemma rfind_ge: "c \<in> set b \<Longrightarrow> int (length a) \<le> rfind (a @ b) c"
proof -
  assume "c \<in> set b"
  then obtain u v where b: "b = u @ c # v" and nv: "c \<notin> set v"
    by (meson split_list_last)
  have "rfind ((a @ u) @ c # v) c = int (length (a @ u))"
    using nv by (rule rfind_last)
  then show ?thesis by (simp add: b)
qed

lemma splitext_basename:
  "posixpath_basename (fst (posixpath_splitext p)) @ snd (posixpath_splitext p) = posixpath_basename p"
proof (cases "rfind p extsep > rfind p sep")
  case False
  then show ?thesis by (simp add: posixpath_splitext_def)
next
  case True
  have lb: "- 1 \<le> rfind p sep"
    using length_takeWhile_le [of "\<lambda>x. x \<noteq> sep" "rev p"] by (simp add: rfind_def)
  then have "extsep \<in> set p" using True by (auto simp: rfind_def [of p extsep] split: if_splits)
  then obtain a b where p: "p = a @ extsep # b" and nb: "extsep \<notin> set b"
    by (meson split_list_last)
  have d: "rfind p extsep = int (length a)" using nb by (simp add: p rfind_last)
  have "sep \<notin> set (extsep # b)"
  proof
    assume "sep \<in> set (extsep # b)"
    then have "int (length a) \<le> rfind (a @ extsep # b) sep" by (rule rfind_ge)
    then show False using True d by (simp add: p)
  qed
  then have bn: "posixpath_basename (a @ extsep # b) = posixpath_basename a @ extsep # b"
    by (rule basename_append)
  have sl: "slice_to p (rfind p extsep) = a" "slice_from p (rfind p extsep) = extsep # b"
    by (simp_all add: d slice_to_def slice_from_def, simp_all add: p)
  from splitext_loop_cases [of p "rfind p extsep" "rfind p sep + 1"]
  show ?thesis
  proof
    assume "splitext_loop p (rfind p extsep) (rfind p sep + 1) = (slice_to p (rfind p extsep), slice_from p (rfind p extsep))"
    then show ?thesis using True sl bn by (simp add: posixpath_splitext_def p)
  next
    assume "splitext_loop p (rfind p extsep) (rfind p sep + 1) = (p, [])"
    then show ?thesis using True by (simp add: posixpath_splitext_def)
  qed
qed

lemma basename_no_sep: "sep \<notin> set (posixpath_basename p)"
proof
  assume "sep \<in> set (posixpath_basename p)"
  then have "sep \<in> set (takeWhile (\<lambda>x. x \<noteq> sep) (rev p))"
    by (simp add: basename_alt)
  then show False by (auto dest: set_takeWhileD)
qed

lemma splitext_ext_dot:
  "snd (posixpath_splitext p) = [] \<or> startswith (snd (posixpath_splitext p)) extsep"
proof (cases "rfind p extsep > rfind p sep")
  case False
  then show ?thesis by (simp add: posixpath_splitext_def)
next
  case True
  have "- 1 \<le> rfind p sep"
    using length_takeWhile_le [of "\<lambda>x. x \<noteq> sep" "rev p"] by (simp add: rfind_def)
  then have "extsep \<in> set p" using True by (auto simp: rfind_def [of p extsep] split: if_splits)
  then obtain a b where p: "p = a @ extsep # b" and nb: "extsep \<notin> set b"
    by (meson split_list_last)
  have d: "rfind p extsep = int (length a)" using nb by (simp add: p rfind_last)
  have sl: "slice_from p (rfind p extsep) = extsep # b"
    by (simp add: d slice_from_def, simp add: p)
  from splitext_loop_cases [of p "rfind p extsep" "rfind p sep + 1"]
  show ?thesis using True sl by (auto simp: posixpath_splitext_def startswith_def)
qed

section \<open>Facts about pathnames and the file system\<close>

lemma components_nonempty: "components s \<noteq> []"
  by (induction s) (auto split: list.splits)

lemma components_append_sep: "components (a @ sep # b) = components a @ components b"
proof (induction a)
  case Nil
  then show ?case by simp
next
  case (Cons c a)
  then show ?case using components_nonempty [of a]
    by (cases "components a") auto
qed

lemma components_no_sep: "sep \<notin> set s \<Longrightarrow> components s = [s]"
  by (induction s) auto

lemma components_replicate: "components (replicate k sep @ s) = replicate k [] @ components s"
  by (induction k) auto

lemma components_trailing: "components (q @ replicate k sep) = components q @ replicate k []"
proof (induction k)
  case 0
  then show ?case by simp
next
  case (Suc k)
  have "q @ replicate (Suc k) sep = (q @ replicate k sep) @ sep # []"
    by (simp add: replicate_append_same)
  then have "components (q @ replicate (Suc k) sep) = components (q @ replicate k sep) @ components []"
    using components_append_sep [of "q @ replicate k sep" "[]"] by simp
  then show ?case using Suc by (simp add: replicate_append_same)
qed

lemma components_shape:
  assumes "sep \<notin> set t"
  shows "components (h @ replicate (Suc m) sep @ t @ replicate k sep) =
         components h @ replicate m [] @ t # replicate k []"
proof -
  have "components (h @ sep # (replicate m sep @ (t @ replicate k sep))) =
        components h @ components (replicate m sep @ (t @ replicate k sep))"
    by (rule components_append_sep)
  then show ?thesis using assms
    by (simp add: components_replicate components_trailing components_no_sep)
qed

lemma rstrip_decomp: "\<exists>m. s = rstrip s c @ replicate m c"
proof -
  have t: "takeWhile (\<lambda>x. x = c) (rev s) = replicate (length (takeWhile (\<lambda>x. x = c) (rev s))) c"
    by (rule replicate_length_same [symmetric]) (auto dest: set_takeWhileD)
  have "rev (dropWhile (\<lambda>x. x = c) (rev s)) @ rev (takeWhile (\<lambda>x. x = c) (rev s)) =
        rev (takeWhile (\<lambda>x. x = c) (rev s) @ dropWhile (\<lambda>x. x = c) (rev s))"
    by (simp only: rev_append)
  also have "\<dots> = rev (rev s)" by (simp only: takeWhile_dropWhile_id)
  finally have "s = rev (dropWhile (\<lambda>x. x = c) (rev s)) @ rev (takeWhile (\<lambda>x. x = c) (rev s))"
    by simp
  then have "s = rstrip s c @ rev (replicate (length (takeWhile (\<lambda>x. x = c) (rev s))) c)"
    using t by (simp add: rstrip_def)
  then show ?thesis by auto
qed

lemma rstrip_last: "rstrip s c \<noteq> [] \<Longrightarrow> last (rstrip s c) \<noteq> c"
proof -
  assume a: "rstrip s c \<noteq> []"
  then have "dropWhile (\<lambda>x. x = c) (rev s) \<noteq> []" by (simp add: rstrip_def)
  then have "hd (dropWhile (\<lambda>x. x = c) (rev s)) \<noteq> c" by (rule hd_dropWhile)
  then show ?thesis using a by (simp add: rstrip_def last_rev)
qed

lemma rstrip_id: "s \<noteq> [] \<Longrightarrow> last s \<noteq> c \<Longrightarrow> rstrip s c = s"
  by (cases s rule: rev_cases) (auto simp: rstrip_def)

lemma rstrip_replicate: "rstrip (s @ replicate k c) c = rstrip s c"
proof -
  have "dropWhile (\<lambda>x. x = c) (replicate k c @ rev s) = dropWhile (\<lambda>x. x = c) (rev s)"
    by (induction k) simp_all
  then show ?thesis by (simp add: rstrip_def)
qed

lemma last_components_nonempty:
  assumes "q \<noteq> []" and "last q \<noteq> sep"
  shows "last (components q) \<noteq> []"
proof (cases "sep \<in> set q")
  case True
  then obtain a b where q: "q = a @ sep # b" and nb: "sep \<notin> set b"
    by (meson split_list_last)
  have "b \<noteq> []" using assms(2) q by auto
  then show ?thesis using nb by (simp add: q components_append_sep components_no_sep)
next
  case False
  then show ?thesis using assms(1) by (simp add: components_no_sep)
qed

lemma split_raw:
  "(sep \<notin> set p \<and> slice_to p (rfind p sep + 1) = [] \<and> slice_from p (rfind p sep + 1) = p)
   \<or> (\<exists>a t. p = a @ sep # t \<and> sep \<notin> set t
         \<and> slice_to p (rfind p sep + 1) = a @ [sep] \<and> slice_from p (rfind p sep + 1) = t)"
proof (cases "sep \<in> set p")
  case False
  then show ?thesis by (simp add: rfind_notin slice_to_def slice_from_def)
next
  case True
  then obtain a t where p: "p = a @ sep # t" and nt: "sep \<notin> set t"
    by (meson split_list_last)
  have r: "rfind p sep = int (length a)" using nt by (simp add: p rfind_last)
  have n: "nat (int (length a) + 1) = Suc (length a)" by simp
  have "slice_to p (rfind p sep + 1) = a @ [sep]" "slice_from p (rfind p sep + 1) = t"
    by (simp_all add: r slice_to_def slice_from_def n, simp_all add: p)
  then show ?thesis using p nt by blast
qed

lemma all_seps_iff: "(h = replicate (length h) sep) = (set h \<subseteq> {sep})"
  by (induction h) auto

lemma split_shape:
  assumes "posixpath_split p = (h, t)"
  shows "sep \<notin> set t \<and>
    (\<exists>m. p = h @ replicate m sep @ t \<and>
       (h = [] \<and> m = 0 \<or> h \<noteq> [] \<and> set h \<subseteq> {sep} \<and> m = 0 \<or> h \<noteq> [] \<and> last h \<noteq> sep \<and> 1 \<le> m))"
proof -
  let ?raw = "slice_to p (rfind p sep + 1)"
  have h: "h = (if ?raw \<noteq> [] \<and> \<not> set ?raw \<subseteq> {sep} then rstrip ?raw sep else ?raw)"
    and t: "t = slice_from p (rfind p sep + 1)"
    using assms by (simp_all add: posixpath_split_def Let_def all_seps_iff [symmetric])
  from split_raw [of p] show ?thesis
  proof
    assume "sep \<notin> set p \<and> ?raw = [] \<and> slice_from p (rfind p sep + 1) = p"
    then show ?thesis using h t by auto
  next
    assume "\<exists>a t. p = a @ sep # t \<and> sep \<notin> set t \<and> ?raw = a @ [sep]
        \<and> slice_from p (rfind p sep + 1) = t"
    then obtain a where p: "p = a @ sep # t" and nt: "sep \<notin> set t" and raw: "?raw = a @ [sep]"
      using t by auto
    show ?thesis
    proof (cases "set ?raw \<subseteq> {sep}")
      case True
      then have "h = a @ [sep]" using h raw by simp
      then show ?thesis using True raw p nt by auto
    next
      case False
      then have hr: "h = rstrip ?raw sep" using h raw by simp
      obtain m where m: "?raw = h @ replicate m sep"
        using rstrip_decomp [of ?raw sep] hr by auto
      have hne: "h \<noteq> []"
      proof
        assume "h = []"
        then have "set ?raw \<subseteq> {sep}" using m by auto
        then show False using False by simp
      qed
      then have lh: "last h \<noteq> sep" using rstrip_last [of ?raw sep] hr by simp
      have "m \<noteq> 0"
      proof
        assume "m = 0"
        then have "h = a @ [sep]" using m raw by simp
        then show False using lh by simp
      qed
      moreover have "p = h @ replicate m sep @ t" using p raw m by simp
      ultimately show ?thesis using nt hne lh by auto
    qed
  qed
qed

lemma parts_shape:
  assumes "makedirs_parts name = (head, tail)" and "head \<noteq> []" and "tail \<noteq> []"
  shows "sep \<notin> set tail \<and>
    (\<exists>m k. name = head @ replicate m sep @ tail @ replicate k sep \<and>
       (set head \<subseteq> {sep} \<and> m = 0 \<or> last head \<noteq> sep \<and> 1 \<le> m))"
proof (cases "snd (posixpath_split name) = []")
  case False
  then have "posixpath_split name = (head, tail)"
    using assms(1) by (simp add: makedirs_parts_def split_def)
  from split_shape [OF this] assms(2) show ?thesis
    by (metis append_Nil2 replicate_0)
next
  case True
  obtain h0 where s0: "posixpath_split name = (h0, [])"
    using True by (cases "posixpath_split name") auto
  then have s1: "posixpath_split h0 = (head, tail)"
    using assms(1) by (simp add: makedirs_parts_def)
  from split_shape [OF s0] obtain k where k: "name = h0 @ replicate k sep"
    by auto
  from split_shape [OF s1] assms(2) obtain m where
    "sep \<notin> set tail" "h0 = head @ replicate m sep @ tail"
    "set head \<subseteq> {sep} \<and> m = 0 \<or> last head \<noteq> sep \<and> 1 \<le> m"
    by auto
  then show ?thesis using k by auto
qed

lemma grows_refl: "grows fs fs"
  by (simp add: grows_def)

lemma grows_trans: "grows a b \<Longrightarrow> grows b c \<Longrightarrow> grows a c"
  unfolding grows_def by (metis option.distinct(1))

lemma grows_dir: "grows fs fs' \<Longrightarrow> node_at fs l = Some n \<Longrightarrow> node_at fs' l = Some n"
  unfolding grows_def by (metis option.distinct(1))

lemma grows_file: "grows fs fs' \<Longrightarrow> node_at fs' l = Some File \<Longrightarrow> node_at fs l = Some File"
  unfolding grows_def by (metis node.distinct(1) option.inject)

lemma walk_append:
  "walk fs cur (xs @ ys) = (case walk fs cur xs of Inl e \<Rightarrow> Inl e | Inr l \<Rightarrow> walk fs l ys)"
  by (induction xs arbitrary: cur) (auto split: option.splits node.splits)

lemma walk_errors: "walk fs cur cs = Inl e \<Longrightarrow> e = FileNotFoundError \<or> e = NotADirectoryError"
  by (induction cs arbitrary: cur) (auto split: option.splits node.splits)

lemma walk_start_dir: "walk fs cur cs = Inr l \<Longrightarrow> cs \<noteq> [] \<Longrightarrow> node_at fs cur = Some Dir"
  by (cases cs) (auto split: option.splits node.splits)

lemma walk_stay:
  "node_at fs cur = Some Dir \<Longrightarrow> \<forall>c\<in>set cs. \<not> normal c \<Longrightarrow> walk fs cur cs = Inr cur"
  by (induction cs) (auto simp: normal_def step_def)

lemma walk_grows: "grows fs fs' \<Longrightarrow> walk fs cur cs = Inr l \<Longrightarrow> walk fs' cur cs = Inr l"
proof (induction cs arbitrary: cur)
  case Nil
  then show ?case by simp
next
  case (Cons c cs)
  from Cons.prems(2) have d: "node_at fs cur = Some Dir"
    by (rule walk_start_dir) simp
  then have "node_at fs' cur = Some Dir" using Cons.prems(1) by (rule grows_dir [rotated])
  then show ?case using Cons d by simp
qed

lemma walk_loc:
  "''..'' \<notin> set cs \<Longrightarrow> walk fs cur cs = Inr l \<Longrightarrow> l = cur @ filter normal cs"
proof (induction cs arbitrary: cur)
  case Nil
  then show ?case by simp
next
  case (Cons c cs)
  from Cons.prems(2) have d: "node_at fs cur = Some Dir"
    by (rule walk_start_dir) simp
  then have "walk fs (step cur c) cs = Inr l" using Cons.prems(2) by simp
  then have "l = step cur c @ filter normal cs" using Cons by simp
  then show ?case using Cons.prems(1) by (auto simp: step_def normal_def [of c])
qed

lemma well_formed_ancestors:
  "well_formed fs \<Longrightarrow> node_at fs l \<noteq> None \<Longrightarrow> k < length l \<Longrightarrow> node_at fs (take k l) = Some Dir"
proof (induction l rule: rev_induct)
  case Nil
  then show ?case by simp
next
  case (snoc x l)
  have "nodes fs (l @ [x]) \<noteq> None" using snoc.prems(2) by (simp add: node_at_def)
  then have "node_at fs (butlast (l @ [x])) = Some Dir"
    using snoc.prems(1) unfolding well_formed_def by blast
  then have up: "node_at fs l = Some Dir" by simp
  show ?case
  proof (cases "k < length l")
    case True
    then show ?thesis using snoc.IH [OF snoc.prems(1)] up by simp
  next
    case False
    then have "k = length l" using snoc.prems(3) by simp
    then show ?thesis using up by simp
  qed
qed

lemma walk_transfer:
  "''..'' \<notin> set cs \<Longrightarrow> walk fs1 cur cs = Inr par \<Longrightarrow>
   (\<And>k. k \<le> length par \<Longrightarrow> node_at fs (take k par) = Some Dir) \<Longrightarrow>
   walk fs cur cs = Inr par"
proof (induction cs arbitrary: cur)
  case Nil
  then show ?case by simp
next
  case (Cons c cs)
  from Cons.prems(2) have d1: "node_at fs1 cur = Some Dir"
    by (rule walk_start_dir) simp
  then have w: "walk fs1 (step cur c) cs = Inr par" using Cons.prems(2) by simp
  have "par = cur @ filter normal (c # cs)"
    using Cons.prems(1,2) by (rule walk_loc)
  then have "take (length cur) par = cur" "length cur \<le> length par" by simp_all
  then have "node_at fs cur = Some Dir" using Cons.prems(3) [of "length cur"] by simp
  moreover have "walk fs (step cur c) cs = Inr par"
    using Cons.IH [OF _ w Cons.prems(3)] Cons.prems(1) by simp
  ultimately show ?case by simp
qed

lemma node_at_root: "node_at fs [] = Some Dir"
  by (simp add: node_at_def)

lemma isdir_intro:
  "CHR 0x00 \<notin> set p \<Longrightarrow> p \<noteq> [] \<Longrightarrow> walk fs (start_of fs p) (components p) = Inr l \<Longrightarrow>
   node_at fs l = Some Dir \<Longrightarrow> path_isdir fs p"
  by (simp add: path_isdir_def os_stat_def)

lemma isdir_elim:
  assumes "path_isdir fs p"
  obtains l where "CHR 0x00 \<notin> set p" "p \<noteq> []" "walk fs (start_of fs p) (components p) = Inr l"
    "node_at fs l = Some Dir"
  using assms by (auto simp: path_isdir_def os_stat_def split: if_splits sum.splits option.splits)

lemma exists_intro:
  "CHR 0x00 \<notin> set p \<Longrightarrow> p \<noteq> [] \<Longrightarrow> walk fs (start_of fs p) (components p) = Inr l \<Longrightarrow>
   node_at fs l = Some n \<Longrightarrow> path_exists fs p"
  by (simp add: path_exists_def os_stat_def)

lemma isdir_exists: "path_isdir fs p \<Longrightarrow> path_exists fs p"
  by (auto simp: path_isdir_def path_exists_def split: sum.splits)

lemma isdir_root:
  assumes "p \<noteq> []" and "set p \<subseteq> {sep}"
  shows "path_isdir fs p"
proof -
  have p: "p = [] @ replicate (length p) sep"
    using assms(2) by (simp add: all_seps_iff [symmetric])
  have "components p = components [] @ replicate (length p) []"
    by (subst p) (rule components_trailing)
  then have c: "\<forall>c\<in>set (components p). \<not> normal c" by (auto simp: normal_def)
  have s: "start_of fs p = []"
    using assms by (cases p) (auto simp: start_of_def startswith_def)
  have "walk fs [] (components p) = Inr []"
    using node_at_root c by (rule walk_stay)
  moreover have "CHR 0x00 \<notin> set p" using assms(2) by (auto simp: sep_def)
  ultimately show ?thesis using assms(1) s node_at_root by (auto intro: isdir_intro)
qed

lemma walk_via_parent:
  assumes q: "rstrip p sep \<noteq> []"
    and par: "walk fs (start_of fs p) (butlast (components (rstrip p sep))) = Inr par"
    and d: "node_at fs par = Some Dir"
  shows "\<exists>k. p = rstrip p sep @ replicate k sep \<and>
     walk fs (start_of fs p) (components p) =
       walk fs (step par (last (components (rstrip p sep)))) (replicate k [])"
proof -
  obtain k where k: "p = rstrip p sep @ replicate k sep"
    using rstrip_decomp [of p sep] by blast
  let ?cs = "components (rstrip p sep)"
  have "components p = components (rstrip p sep @ replicate k sep)" using k by simp
  then have "components p = ?cs @ replicate k []" by (simp only: components_trailing)
  moreover have "?cs = butlast ?cs @ [last ?cs]"
    using components_nonempty by simp
  ultimately have "components p = butlast ?cs @ (last ?cs # replicate k [])"
    by (metis append_Cons append_Nil append_assoc)
  then have "walk fs (start_of fs p) (components p) = walk fs par (last ?cs # replicate k [])"
    using par by (simp add: walk_append)
  then show ?thesis using d k by auto
qed

lemma isdir_via_parent:
  assumes "CHR 0x00 \<notin> set p" and "rstrip p sep \<noteq> []"
    and "walk fs (start_of fs p) (butlast (components (rstrip p sep))) = Inr par"
    and "node_at fs par = Some Dir"
    and t: "node_at fs (step par (last (components (rstrip p sep)))) = Some Dir"
  shows "path_isdir fs p"
proof -
  from walk_via_parent [OF assms(2,3,4)] obtain k where
    w: "walk fs (start_of fs p) (components p) =
       walk fs (step par (last (components (rstrip p sep)))) (replicate k [])"
    by blast
  have "walk fs (step par (last (components (rstrip p sep)))) (replicate k []) =
       Inr (step par (last (components (rstrip p sep))))"
    using t by (rule walk_stay) (simp add: normal_def)
  moreover have "p \<noteq> []" using assms(2) by (auto simp: rstrip_def)
  ultimately show ?thesis using w t assms(1) by (auto intro: isdir_intro)
qed

lemma exists_via_parent:
  assumes "CHR 0x00 \<notin> set p" and "rstrip p sep \<noteq> []" and "rstrip p sep = p"
    and "walk fs (start_of fs p) (butlast (components (rstrip p sep))) = Inr par"
    and "node_at fs par = Some Dir"
    and t: "node_at fs (step par (last (components (rstrip p sep)))) = Some n"
  shows "path_exists fs p"
proof -
  from walk_via_parent [OF assms(2,4,5)] obtain k where
    k: "p = rstrip p sep @ replicate k sep"
    and w: "walk fs (start_of fs p) (components p) =
       walk fs (step par (last (components (rstrip p sep)))) (replicate k [])"
    by blast
  have "k = 0" using k assms(3) by simp
  then have "walk fs (start_of fs p) (components p) =
       Inr (step par (last (components (rstrip p sep))))"
    using w by simp
  moreover have "p \<noteq> []" using assms(2) by (auto simp: rstrip_def)
  ultimately show ?thesis using t assms(1) by (auto intro: exists_intro)
qed

lemma mkdir_Inr:
  assumes "os_mkdir fs p = Inr fs'"
  obtains par where "CHR 0x00 \<notin> set p" "rstrip p sep \<noteq> []"
    "walk fs (start_of fs p) (butlast (components (rstrip p sep))) = Inr par"
    "node_at fs par = Some Dir"
    "last (components (rstrip p sep)) \<noteq> ''.''" "last (components (rstrip p sep)) \<noteq> ''..''"
    "node_at fs (par @ [last (components (rstrip p sep))]) = None"
    "fs' = fs\<lparr>nodes := (nodes fs)(par @ [last (components (rstrip p sep))] \<mapsto> Dir),
               writable := (writable fs)(par @ [last (components (rstrip p sep))] := True)\<rparr>"
  using assms
  by (auto simp: os_mkdir_def Let_def split: if_splits sum.splits option.splits node.splits)

lemma mkdir_FileExists:
  assumes "os_mkdir fs p = Inl FileExistsError"
  shows "CHR 0x00 \<notin> set p \<and> p \<noteq> [] \<and>
    (rstrip p sep = [] \<or>
     (\<exists>par. walk fs (start_of fs p) (butlast (components (rstrip p sep))) = Inr par
        \<and> node_at fs par = Some Dir
        \<and> (last (components (rstrip p sep)) = ''.'' \<or> last (components (rstrip p sep)) = ''..''
            \<or> node_at fs (par @ [last (components (rstrip p sep))]) \<noteq> None)))"
  using assms
  by (auto simp: os_mkdir_def Let_def split: if_splits sum.splits option.splits node.splits
      dest: walk_errors)


lemma mkdir_grows: "os_mkdir fs p = Inr fs' \<Longrightarrow> grows fs fs'"
  by (erule mkdir_Inr) (auto simp: grows_def node_at_def)

lemma mkdir_well_formed:
  assumes "os_mkdir fs p = Inr fs'" and "well_formed fs"
  shows "well_formed fs'"
proof -
  from assms(1) obtain par nm where d: "node_at fs par = Some Dir"
    and fs': "fs' = fs\<lparr>nodes := (nodes fs)(par @ [nm] \<mapsto> Dir),
               writable := (writable fs)(par @ [nm] := True)\<rparr>"
    by (rule mkdir_Inr)
  have g: "grows fs fs'" using assms(1) by (rule mkdir_grows)
  show ?thesis unfolding well_formed_def
  proof (intro allI impI)
    fix l assume l: "l \<noteq> []" "nodes fs' l \<noteq> None"
    show "node_at fs' (butlast l) = Some Dir"
    proof (cases "l = par @ [nm]")
      case True
      then show ?thesis using d g by (simp add: grows_dir)
    next
      case False
      then have "nodes fs l \<noteq> None" using l(2) fs' by simp
      then have "node_at fs (butlast l) = Some Dir"
        using assms(2) l(1) unfolding well_formed_def by blast
      then show ?thesis using g by (rule grows_dir [rotated])
    qed
  qed
qed

lemma mkdir_isdir:
  assumes "os_mkdir fs p = Inr fs'"
  shows "path_isdir fs' p"
proof -
  let ?nm = "last (components (rstrip p sep))"
  from assms obtain par where nul: "CHR 0x00 \<notin> set p" and q: "rstrip p sep \<noteq> []"
    and w: "walk fs (start_of fs p) (butlast (components (rstrip p sep))) = Inr par"
    and d: "node_at fs par = Some Dir"
    and n1: "?nm \<noteq> ''.''" and n2: "?nm \<noteq> ''..''"
    and fs': "fs' = fs\<lparr>nodes := (nodes fs)(par @ [?nm] \<mapsto> Dir),
               writable := (writable fs)(par @ [?nm] := True)\<rparr>"
    by (rule mkdir_Inr)
  have g: "grows fs fs'" using assms by (rule mkdir_grows)
  have s: "start_of fs' p = start_of fs p" using fs' by (simp add: start_of_def)
  have w': "walk fs' (start_of fs' p) (butlast (components (rstrip p sep))) = Inr par"
    unfolding s using g w by (rule walk_grows)
  have d': "node_at fs' par = Some Dir" using g d by (rule grows_dir)
  have "?nm \<noteq> []"
    using q rstrip_last [OF q] by (rule last_components_nonempty)
  then have st: "step par ?nm = par @ [?nm]" using n1 n2 by (simp add: step_def)
  have "node_at fs' (par @ [?nm]) = Some Dir" using fs' by (simp add: node_at_def)
  then show ?thesis using nul q w' d' st by (auto intro: isdir_via_parent)
qed

lemma mkdir_exist_ok_grows: "grows fs (fst (mkdir_exist_ok fs name ok))"
  by (auto simp: mkdir_exist_ok_def grows_refl mkdir_grows split: sum.splits)

lemma mkdir_exist_ok_well_formed:
  "well_formed fs \<Longrightarrow> well_formed (fst (mkdir_exist_ok fs name ok))"
  by (auto simp: mkdir_exist_ok_def mkdir_well_formed split: sum.splits)

lemma mkdir_exist_ok_isdir:
  "snd (mkdir_exist_ok fs name ok) = None \<Longrightarrow> path_isdir (fst (mkdir_exist_ok fs name ok)) name"
  by (auto simp: mkdir_exist_ok_def mkdir_isdir split: sum.splits if_splits)

lemma makedirs_base:
  "\<not> (fst (makedirs_parts name) \<noteq> [] \<and> snd (makedirs_parts name) \<noteq> []
       \<and> \<not> path_exists fs (fst (makedirs_parts name))) \<Longrightarrow>
   os_makedirs fs name ok = mkdir_exist_ok fs name ok"
  by (subst os_makedirs.simps) auto

lemma makedirs_rec:
  "fst (makedirs_parts name) \<noteq> [] \<and> snd (makedirs_parts name) \<noteq> []
       \<and> \<not> path_exists fs (fst (makedirs_parts name)) \<Longrightarrow>
   os_makedirs fs name ok =
     (if snd (os_makedirs fs (fst (makedirs_parts name)) ok) = None
         \<or> snd (os_makedirs fs (fst (makedirs_parts name)) ok) = Some FileExistsError
      then (if snd (makedirs_parts name) = ''.''
            then (fst (os_makedirs fs (fst (makedirs_parts name)) ok), None)
            else mkdir_exist_ok (fst (os_makedirs fs (fst (makedirs_parts name)) ok)) name ok)
      else os_makedirs fs (fst (makedirs_parts name)) ok)"
  by (subst os_makedirs.simps) (auto split: prod.splits option.splits)

lemma makedirs_grows: "grows fs (fst (os_makedirs fs name ok))"
proof (induction fs name ok rule: os_makedirs.induct)
  case (1 fs name ok)
  show ?case
  proof (cases "fst (makedirs_parts name) \<noteq> [] \<and> snd (makedirs_parts name) \<noteq> []
       \<and> \<not> path_exists fs (fst (makedirs_parts name))")
    case False
    then show ?thesis by (simp add: makedirs_base mkdir_exist_ok_grows)
  next
    case True
    then have ih: "grows fs (fst (os_makedirs fs (fst (makedirs_parts name)) ok))"
      using "1.IH" by simp
    have "grows fs (fst (mkdir_exist_ok (fst (os_makedirs fs (fst (makedirs_parts name)) ok)) name ok))"
      using ih mkdir_exist_ok_grows by (rule grows_trans)
    then show ?thesis using ih by (simp add: makedirs_rec [OF True])
  qed
qed

lemma makedirs_well_formed: "well_formed fs \<Longrightarrow> well_formed (fst (os_makedirs fs name ok))"
proof (induction fs name ok rule: os_makedirs.induct)
  case (1 fs name ok)
  show ?case
  proof (cases "fst (makedirs_parts name) \<noteq> [] \<and> snd (makedirs_parts name) \<noteq> []
       \<and> \<not> path_exists fs (fst (makedirs_parts name))")
    case False
    then show ?thesis using "1.prems" by (simp add: makedirs_base mkdir_exist_ok_well_formed)
  next
    case True
    then have ih: "well_formed (fst (os_makedirs fs (fst (makedirs_parts name)) ok))"
      using "1.IH" "1.prems" by simp
    then show ?thesis by (simp add: makedirs_rec [OF True] mkdir_exist_ok_well_formed)
  qed
qed

lemma start_of_append: "h \<noteq> [] \<Longrightarrow> start_of fs (h @ r) = start_of fs h"
  by (cases h) (simp_all add: start_of_def startswith_def)

lemma grows_start_of: "grows fs fs' \<Longrightarrow> start_of fs' p = start_of fs p"
  by (simp add: grows_def start_of_def)

lemma isdir_dot:
  assumes "path_isdir fs head" and "head \<noteq> []"
    and name: "name = head @ replicate (Suc m) sep @ ''.'' @ replicate k sep"
  shows "path_isdir fs name"
proof -
  from assms(1) obtain l where nul: "CHR 0x00 \<notin> set head"
    and w: "walk fs (start_of fs head) (components head) = Inr l"
    and d: "node_at fs l = Some Dir"
    by (rule isdir_elim)
  have "sep \<notin> set ''.''" by (simp add: sep_def)
  then have c: "components name = components head @ (replicate m [] @ ''.'' # replicate k [])"
    unfolding name by (rule components_shape)
  have "walk fs l (replicate m [] @ ''.'' # replicate k []) = Inr l"
    using d by (rule walk_stay) (auto simp: normal_def)
  then have "walk fs (start_of fs head) (components name) = Inr l"
    using w by (simp add: c walk_append)
  moreover have "start_of fs name = start_of fs head"
    unfolding name using assms(2) by (rule start_of_append)
  moreover have "CHR 0x00 \<notin> set name" using nul by (auto simp: name sep_def)
  moreover have "name \<noteq> []" by (simp add: name)
  ultimately show ?thesis using d by (auto intro: isdir_intro)
qed

lemma isdir_head:
  assumes "path_isdir fs name" and "head \<noteq> []" and "sep \<notin> set tail"
    and name: "name = head @ replicate (Suc m) sep @ tail @ replicate k sep"
  shows "path_isdir fs head"
proof -
  from assms(1) obtain l where nul: "CHR 0x00 \<notin> set name"
    and w: "walk fs (start_of fs name) (components name) = Inr l"
    by (rule isdir_elim)
  have c: "components name = components head @ (replicate m [] @ tail # replicate k [])"
    unfolding name using assms(3) by (rule components_shape)
  have s: "start_of fs name = start_of fs head"
    unfolding name using assms(2) by (rule start_of_append)
  obtain l1 where l1: "walk fs (start_of fs head) (components head) = Inr l1"
    and rest: "walk fs l1 (replicate m [] @ tail # replicate k []) = Inr l"
    using w unfolding s c walk_append by (auto split: sum.splits)
  have "node_at fs l1 = Some Dir" using rest by (rule walk_start_dir) simp
  moreover have "CHR 0x00 \<notin> set head" using nul by (auto simp: name)
  ultimately show ?thesis using l1 assms(2) by (auto intro: isdir_intro)
qed

lemma parts_rec_shape:
  assumes "fst (makedirs_parts name) \<noteq> []" and "snd (makedirs_parts name) \<noteq> []"
    and "\<not> path_exists fs (fst (makedirs_parts name))"
  shows "sep \<notin> set (snd (makedirs_parts name)) \<and> last (fst (makedirs_parts name)) \<noteq> sep \<and>
    (\<exists>m k. name = fst (makedirs_parts name) @ replicate (Suc m) sep
                    @ snd (makedirs_parts name) @ replicate k sep)"
proof -
  have "\<not> set (fst (makedirs_parts name)) \<subseteq> {sep}"
    using assms(1,3) isdir_root isdir_exists by blast
  moreover from parts_shape [OF prod.collapse [symmetric] assms(1,2)]
  obtain m k where "sep \<notin> set (snd (makedirs_parts name))"
    "name = fst (makedirs_parts name) @ replicate m sep @ snd (makedirs_parts name) @ replicate k sep"
    "set (fst (makedirs_parts name)) \<subseteq> {sep} \<and> m = 0 \<or> last (fst (makedirs_parts name)) \<noteq> sep \<and> 1 \<le> m"
    by blast
  ultimately show ?thesis by (cases m) auto
qed

lemma mkdir_exist_ok_FileExists:
  assumes g: "grows fs fs1" and wf: "well_formed fs"
    and nd: "''..'' \<notin> set (components name)" and rs: "rstrip name sep = name"
    and r: "snd (mkdir_exist_ok fs1 name True) = Some FileExistsError"
  shows "path_exists fs name"
proof -
  let ?cs = "components name"
  have mk: "os_mkdir fs1 name = Inl FileExistsError" and nodir: "\<not> path_isdir fs1 name"
    using r by (auto simp: mkdir_exist_ok_def is_OSError_def split: sum.splits if_splits)
  from mkdir_FileExists [OF mk] have nul: "CHR 0x00 \<notin> set name" and ne: "name \<noteq> []"
    by simp_all
  have q: "rstrip name sep \<noteq> []" using ne rs by simp
  from mkdir_FileExists [OF mk] q rs obtain par where
    w1: "walk fs1 (start_of fs1 name) (butlast ?cs) = Inr par"
    and d1: "node_at fs1 par = Some Dir"
    and nm: "last ?cs = ''.'' \<or> last ?cs = ''..'' \<or> node_at fs1 (par @ [last ?cs]) \<noteq> None"
    by auto
  have via: "node_at fs1 (step par (last ?cs)) \<noteq> Some Dir"
    using nodir isdir_via_parent [OF nul q _ d1] w1 rs by auto
  have "last ?cs \<in> set ?cs" using components_nonempty by simp
  then have n2: "last ?cs \<noteq> ''..''" using nd by auto
  have n1: "last ?cs \<noteq> ''.''" using via d1 by (auto simp: step_def)
  have "last ?cs \<noteq> []"
    using ne rstrip_last [OF q] rs last_components_nonempty [of name] by simp
  then have st: "step par (last ?cs) = par @ [last ?cs]" using n1 n2 by (simp add: step_def)
  from nm n1 n2 obtain n where "node_at fs1 (par @ [last ?cs]) = Some n" by auto
  then have "node_at fs1 (par @ [last ?cs]) = Some File" using via st by (cases n) auto
  then have isfile: "node_at fs (par @ [last ?cs]) = Some File" using g by (rule grows_file [rotated])
  have anc: "node_at fs (take k par) = Some Dir" if "k \<le> length par" for k
  proof -
    have "node_at fs (take k (par @ [last ?cs])) = Some Dir"
      using wf by (rule well_formed_ancestors) (use isfile that in auto)
    then show ?thesis using that by simp
  qed
  have "''..'' \<notin> set (butlast ?cs)" using nd by (auto dest: in_set_butlastD)
  then have "walk fs (start_of fs1 name) (butlast ?cs) = Inr par"
    using w1 anc by (rule walk_transfer)
  then have w: "walk fs (start_of fs name) (butlast ?cs) = Inr par"
    using g by (simp add: grows_start_of)
  have d: "node_at fs par = Some Dir" using anc [of "length par"] by simp
  show ?thesis
    using nul q rs _ d
  proof (rule exists_via_parent)
    show "walk fs (start_of fs name) (butlast (components (rstrip name sep))) = Inr par"
      using w rs by simp
    show "node_at fs (step par (last (components (rstrip name sep)))) = Some File"
      using isfile st rs by simp
  qed
qed



lemma filter_normal_trailing: "filter normal (cs @ replicate k []) = filter normal cs"
proof -
  have "filter normal (replicate k []) = []" by (induction k) (simp_all add: normal_def)
  then show ?thesis by simp
qed

lemma mkdir_changes:
  assumes "os_mkdir fs p = Inr fs'" and nd: "''..'' \<notin> set (components p)"
    and ch: "node_at fs' l \<noteq> node_at fs l"
  shows "l = start_of fs p @ filter normal (components p)"
proof -
  let ?cs = "components (rstrip p sep)"
  from assms(1) obtain par where q: "rstrip p sep \<noteq> []"
    and w: "walk fs (start_of fs p) (butlast ?cs) = Inr par"
    and n1: "last ?cs \<noteq> ''.''"
    and fs': "fs' = fs\<lparr>nodes := (nodes fs)(par @ [last ?cs] \<mapsto> Dir),
               writable := (writable fs)(par @ [last ?cs] := True)\<rparr>"
    by (rule mkdir_Inr)
  obtain k where k: "p = rstrip p sep @ replicate k sep"
    using rstrip_decomp [of p sep] by blast
  have "components p = components (rstrip p sep @ replicate k sep)" using k by simp
  then have cp: "components p = ?cs @ replicate k []" by (simp only: components_trailing)
  have cs: "?cs = butlast ?cs @ [last ?cs]" using components_nonempty by simp
  have "''..'' \<notin> set ?cs" using nd cp by auto
  then have "''..'' \<notin> set (butlast ?cs)" by (auto dest: in_set_butlastD)
  then have par: "par = start_of fs p @ filter normal (butlast ?cs)"
    using w by (rule walk_loc)
  have "last ?cs \<noteq> []" using q rstrip_last [OF q] by (rule last_components_nonempty)
  then have "normal (last ?cs)" using n1 by (simp add: normal_def)
  then have "filter normal ?cs = filter normal (butlast ?cs) @ [last ?cs]"
    by (subst cs) simp
  moreover have "filter normal (components p) = filter normal ?cs"
    unfolding cp by (rule filter_normal_trailing)
  ultimately have "par @ [last ?cs] = start_of fs p @ filter normal (components p)"
    using par by simp
  moreover have "l = par @ [last ?cs]"
    using ch fs' by (auto simp: node_at_def split: if_splits)
  ultimately show ?thesis by simp
qed

lemma mkdir_exist_ok_changes:
  "''..'' \<notin> set (components name) \<Longrightarrow>
   node_at (fst (mkdir_exist_ok fs name ok)) l \<noteq> node_at fs l \<Longrightarrow>
   l = start_of fs name @ filter normal (components name)"
  by (auto simp: mkdir_exist_ok_def mkdir_changes split: sum.splits if_splits)

lemma makedirs_sound:
  "ok \<Longrightarrow> well_formed fs \<Longrightarrow> ''..'' \<notin> set (components name) \<Longrightarrow>
   (snd (os_makedirs fs name ok) = None \<longrightarrow> path_isdir (fst (os_makedirs fs name ok)) name)
   \<and> (snd (os_makedirs fs name ok) = Some FileExistsError \<longrightarrow> rstrip name sep = name \<longrightarrow>
        path_exists fs name)"
proof (induction fs name ok rule: os_makedirs.induct)
  case (1 fs name ok)
  let ?h = "fst (makedirs_parts name)" and ?t = "snd (makedirs_parts name)"
  show ?case
  proof (cases "?h \<noteq> [] \<and> ?t \<noteq> [] \<and> \<not> path_exists fs ?h")
    case False
    then have eq: "os_makedirs fs name ok = mkdir_exist_ok fs name ok"
      by (rule makedirs_base)
    show ?thesis unfolding eq
      using "1.prems" mkdir_exist_ok_isdir [of fs name ok]
        mkdir_exist_ok_FileExists [OF grows_refl, of fs name]
      by auto
  next
    case True
    then obtain m k where nt: "sep \<notin> set ?t" and lh: "last ?h \<noteq> sep"
      and name: "name = ?h @ replicate (Suc m) sep @ ?t @ replicate k sep"
      using parts_rec_shape [of name fs] by blast
    have c: "components name = components ?h @ replicate m [] @ ?t # replicate k []"
      by (subst name) (rule components_shape [OF nt])
    have ndh: "''..'' \<notin> set (components ?h)" using "1.prems"(3) c by auto
    have rh: "rstrip ?h sep = ?h" using True lh by (simp add: rstrip_id)
    let ?r = "os_makedirs fs ?h ok"
    have ih: "(snd ?r = None \<longrightarrow> path_isdir (fst ?r) ?h)
        \<and> (snd ?r = Some FileExistsError \<longrightarrow> rstrip ?h sep = ?h \<longrightarrow> path_exists fs ?h)"
      using "1.IH" [OF True "1.prems"(1,2) ndh] .
    then have nofe: "snd ?r \<noteq> Some FileExistsError" using rh True by auto
    have g: "grows fs (fst ?r)" by (rule makedirs_grows)
    show ?thesis
    proof (cases "snd ?r")
      case None
      show ?thesis
      proof (cases "?t = ''.''")
        case dot: True
        have eq: "os_makedirs fs name ok = (fst ?r, None)"
          using None dot by (simp add: makedirs_rec [OF True])
        have "path_isdir (fst ?r) ?h" using ih None by simp
        then have "path_isdir (fst ?r) name"
          using True name dot isdir_dot [of "fst ?r" ?h name m k] by auto
        then show ?thesis by (simp add: eq)
      next
        case nodot: False
        have eq: "os_makedirs fs name ok = mkdir_exist_ok (fst ?r) name ok"
          using None nodot by (simp add: makedirs_rec [OF True])
        show ?thesis unfolding eq
          using "1.prems" mkdir_exist_ok_isdir [of "fst ?r" name ok]
            mkdir_exist_ok_FileExists [OF g, of name]
          by auto
      qed
    next
      case (Some e)
      then have eq: "os_makedirs fs name ok = ?r"
        using nofe by (simp add: makedirs_rec [OF True])
      show ?thesis unfolding eq using Some nofe by simp
    qed
  qed
qed

lemma makedirs_isdir:
  "well_formed fs \<Longrightarrow> ''..'' \<notin> set (components name) \<Longrightarrow>
   snd (os_makedirs fs name True) = None \<Longrightarrow> path_isdir (fst (os_makedirs fs name True)) name"
  using makedirs_sound [of True fs name] by simp

lemma makedirs_changes:
  "''..'' \<notin> set (components name) \<Longrightarrow>
   node_at (fst (os_makedirs fs name ok)) l \<noteq> node_at fs l \<Longrightarrow>
   prefix l (start_of fs name @ filter normal (components name))"
proof (induction fs name ok rule: os_makedirs.induct)
  case (1 fs name ok)
  let ?h = "fst (makedirs_parts name)" and ?t = "snd (makedirs_parts name)"
  show ?case
  proof (cases "?h \<noteq> [] \<and> ?t \<noteq> [] \<and> \<not> path_exists fs ?h")
    case False
    then have eq: "os_makedirs fs name ok = mkdir_exist_ok fs name ok"
      by (rule makedirs_base)
    show ?thesis
      using "1.prems" mkdir_exist_ok_changes [of name fs ok l] by (simp add: eq)
  next
    case True
    then obtain m k where nt: "sep \<notin> set ?t"
      and name: "name = ?h @ replicate (Suc m) sep @ ?t @ replicate k sep"
      using parts_rec_shape [of name fs] by blast
    have c: "components name = components ?h @ replicate m [] @ ?t # replicate k []"
      by (subst name) (rule components_shape [OF nt])
    have ndh: "''..'' \<notin> set (components ?h)" using "1.prems"(1) c by auto
    have s: "start_of fs name = start_of fs ?h"
      by (subst name) (rule start_of_append, use True in simp)
    let ?r = "os_makedirs fs ?h ok"
    have g: "grows fs (fst ?r)" by (rule makedirs_grows)
    have pre: "prefix (start_of fs ?h @ filter normal (components ?h))
        (start_of fs name @ filter normal (components name))"
      by (simp add: s c)
    have first: "prefix l (start_of fs name @ filter normal (components name))"
      if "node_at (fst ?r) l \<noteq> node_at fs l"
      using "1.IH" [OF True ndh that] pre by (rule prefix_order.trans)
    have second: "prefix l (start_of fs name @ filter normal (components name))"
      if "node_at (fst (mkdir_exist_ok (fst ?r) name ok)) l \<noteq> node_at (fst ?r) l"
      using mkdir_exist_ok_changes [OF "1.prems"(1) that] g by (simp add: grows_start_of)
    have "fst (os_makedirs fs name ok) = fst ?r
        \<or> fst (os_makedirs fs name ok) = fst (mkdir_exist_ok (fst ?r) name ok)"
      by (simp add: makedirs_rec [OF True])
    then show ?thesis
    proof
      assume "fst (os_makedirs fs name ok) = fst ?r"
      with "1.prems"(2) have "node_at (fst ?r) l \<noteq> node_at fs l" by simp
      then show ?thesis by (rule first)
    next
      assume e: "fst (os_makedirs fs name ok) = fst (mkdir_exist_ok (fst ?r) name ok)"
      show ?thesis
      proof (cases "node_at (fst ?r) l = node_at fs l")
        case same: True
        with e "1.prems"(2)
        have "node_at (fst (mkdir_exist_ok (fst ?r) name ok)) l \<noteq> node_at (fst ?r) l"
          by simp
        then show ?thesis by (rule second)
      next
        case False
        then show ?thesis by (rule first)
      qed
    qed
  qed
qed

section \<open>The claims\<close>

text \<open>
  C8. For every pathname \<open>p\<close>, \<^verbatim>\<open>get_filename(p) + get_ext(p)\<close> is the base name of \<open>p\<close>
  (its final component). Both are total functions of the string alone (no file system is
  read): the extension is empty or starts with the dot, neither part contains a path
  separator, and on \<^verbatim>\<open>/a/b/c.py\<close> they give \<^verbatim>\<open>c\<close> and \<^verbatim>\<open>.py\<close>.
\<close>

theorem get_filename_get_ext_basename:
  "get_filename p @ get_ext p = posixpath_basename p
   \<and> (get_ext p = [] \<or> startswith (get_ext p) extsep)
   \<and> sep \<notin> set (get_filename p) \<and> sep \<notin> set (get_ext p)
   \<and> get_filename ''/a/b/c.py'' = ''c'' \<and> get_ext ''/a/b/c.py'' = ''.py''"
proof -
  have r: "get_filename p @ get_ext p = posixpath_basename p"
    by (simp add: get_filename_def get_ext_def splitext_basename)
  have "sep \<notin> set (get_filename p @ get_ext p)"
    unfolding r by (rule basename_no_sep)
  then have s: "sep \<notin> set (get_filename p)" "sep \<notin> set (get_ext p)"
    by simp_all
  have d: "get_ext p = [] \<or> startswith (get_ext p) extsep"
    unfolding get_ext_def by (rule splitext_ext_dot)
  have e1: "get_filename ''/a/b/c.py'' = ''c''" by code_simp
  have e2: "get_ext ''/a/b/c.py'' = ''.py''" by code_simp
  show ?thesis using r s d e1 e2 by blast
qed

lemma join_one: "posixpath_join a [b] = join_step a b"
  by (simp add: posixpath_join_def)

lemma join_absolute: "startswith s sep \<Longrightarrow> posixpath_join a [s] = s"
  by (simp add: posixpath_join_def join_step_def)

lemma init_objects:
  "objects (fst (PathBuilder_init w names)) =
     objects w @ [\<lparr>path = posixpath_join (hd (if names = [] then [''.''] else names))
                                        (tl (if names = [] then [''.''] else names))\<rparr>]"
  by (simp add: PathBuilder_init_def Let_def)

lemma init_address: "snd (PathBuilder_init w names) = Inr r \<Longrightarrow> r = length (objects w)"
  by (auto simp: PathBuilder_init_def Let_def split: option.splits)

lemma truediv_path:
  "snd (PathBuilder_truediv w b s) = Inr r \<Longrightarrow>
   path (objects (fst (PathBuilder_truediv w b s)) ! r) = posixpath_join (path (objects w ! b)) [s]"
  unfolding PathBuilder_truediv_def
  by (frule init_address) (simp add: init_objects posixpath_join_def)

text \<open>
  C10. When the segment \<open>s\<close> is absolute (it starts with the separator), \<^verbatim>\<open>b + s\<close> is
  exactly \<open>s\<close>, and the instance made by a successful \<^verbatim>\<open>b / s\<close> has the path \<open>s\<close>: the
  join drops everything the builder had accumulated.
\<close>

theorem absolute_segment_discards_path:
  "startswith s sep \<longrightarrow>
     snd (PathBuilder_add w b s) = s
     \<and> (\<forall>r. snd (PathBuilder_truediv w b s) = Inr r \<longrightarrow>
            path (objects (fst (PathBuilder_truediv w b s)) ! r) = s)"
  by (auto simp: PathBuilder_add_def truediv_path join_absolute)

theorem absolute_segment_witness:
  "startswith ''/srv/data'' sep
   \<and> snd (PathBuilder_truediv demo_world 0 ''/srv/data'') = Inr 1
   \<and> snd (PathBuilder_add demo_world 0 ''/srv/data'') = ''/srv/data''
   \<and> path (objects (fst (PathBuilder_truediv demo_world 0 ''/srv/data'')) ! 1) = ''/srv/data''"
proof -
  have a: "startswith ''/srv/data'' sep" by code_simp
  have b: "snd (PathBuilder_truediv demo_world 0 ''/srv/data'') = Inr 1" by code_simp
  show ?thesis
    using a b absolute_segment_discards_path [of "''/srv/data''" demo_world 0] by blast
qed

text \<open>
  C3. \<^verbatim>\<open>b + s\<close> gives a string, the join of \<^verbatim>\<open>b.path\<close> and \<open>s\<close> (the segment itself when
  it is absolute, else the path, a separator unless the path is empty or ends with one,
  and the segment), and leaves the world as it was: no directory is made and no
  instance is created or changed.
\<close>

theorem add_is_join_without_effect:
  "fst (PathBuilder_add w b s) = w
   \<and> snd (PathBuilder_add w b s) =
       (if startswith s sep then s
        else if path (objects w ! b) = [] \<or> endswith (path (objects w ! b)) sep
          then path (objects w ! b) @ s
        else path (objects w ! b) @ [sep] @ s)"
  by (simp add: PathBuilder_add_def posixpath_join_def join_step_def)

theorem add_witness:
  "PathBuilder_add demo_world 0 ''file.txt'' = (demo_world, ''/tmp/file.txt'')"
proof -
  have "snd (PathBuilder_add demo_world 0 ''file.txt'') = ''/tmp/file.txt''"
    by code_simp
  then show ?thesis
    using add_is_join_without_effect [of demo_world 0 "''file.txt''"]
    by (simp add: prod_eq_iff)
qed

lemma re_sub_default: "re_sub_class cls [] s = Some (filter (\<lambda>c. \<not> cls c) s)"
  by (induction s) (auto simp: re_sub_class_def)

text \<open>
  C9. With the default replacement, \<^verbatim>\<open>normalize_path(s)\<close> always returns, and the result
  is \<open>s\<close> without its reserved characters: none of \<^verbatim>\<open>< > : " / \ | ? *\<close>, no control code
  0x00 to 0x1F and no 0x7F occurs in it. With a replacement that has no backslash, every
  reserved character is replaced by the replacement and every other character is kept.
\<close>

theorem normalize_path_removes_reserved:
  "(\<exists>r. normalize_path_default s = Some r \<and> r = filter (\<lambda>c. \<not> reserved c) s
        \<and> \<not> list_ex reserved r)
   \<and> (CHR 0x5C \<notin> set rep \<longrightarrow>
        normalize_path s rep = Some (concat (map (\<lambda>c. if reserved c then rep else [c]) s)))"
  by (simp add: normalize_path_default_def normalize_path_def re_sub_default list_ex_iff)
    (simp add: re_sub_class_def)

theorem normalize_path_witness:
  "CHR 0x5C \<notin> set ''_''
   \<and> normalize_path ''a:b/c?.txt'' ''_'' = Some ''a_b_c_.txt''
   \<and> normalize_path_default ''a:b/c?.txt'' = Some ''abc.txt''"
proof -
  have a: "CHR 0x5C \<notin> set ''_''" by simp
  have b: "concat (map (\<lambda>c. if reserved c then ''_'' else [c]) ''a:b/c?.txt'') = ''a_b_c_.txt''"
    by code_simp
  have c: "filter (\<lambda>c. \<not> reserved c) ''a:b/c?.txt'' = ''abc.txt''"
    by code_simp
  show ?thesis
    using a b c normalize_path_removes_reserved [of "''a:b/c?.txt''" "''_''"] by auto
qed

lemma init_keeps_objects:
  "take (length (objects w)) (objects (fst (PathBuilder_init w names))) = objects w"
  by (simp add: init_objects)

text \<open>
  C4. For an instance \<open>b\<close> of the store, a successful \<^verbatim>\<open>b / s\<close> returns an instance at
  a new address, different from \<open>b\<close>, whose path is the join of \<^verbatim>\<open>b.path\<close> and \<open>s\<close>;
  \<open>b\<close> is afterwards what it was before. No operation changes an instance that exists:
  after \<^verbatim>\<open>/\<close>, after a constructor call and after \<^verbatim>\<open>+\<close>, whether they succeed or raise,
  the instances of before are in the store unchanged.
\<close>

theorem truediv_new_instance_receiver_unchanged:
  "b < length (objects w) \<longrightarrow>
     take (length (objects w)) (objects (fst (PathBuilder_truediv w b s))) = objects w
     \<and> take (length (objects w)) (objects (fst (PathBuilder_init w names))) = objects w
     \<and> objects (fst (PathBuilder_add w b s)) = objects w
     \<and> objects (fst (PathBuilder_truediv w b s)) ! b = objects w ! b
     \<and> (\<forall>r. snd (PathBuilder_truediv w b s) = Inr r \<longrightarrow>
            r \<noteq> b \<and> r = length (objects w)
            \<and> length (objects (fst (PathBuilder_truediv w b s))) = Suc r
            \<and> path (objects (fst (PathBuilder_truediv w b s)) ! r) =
                posixpath_join (path (objects w ! b)) [s])"
proof
  assume b: "b < length (objects w)"
  have keep: "take (length (objects w)) (objects (fst (PathBuilder_truediv w b s))) = objects w"
    unfolding PathBuilder_truediv_def by (rule init_keeps_objects)
  have same: "objects (fst (PathBuilder_truediv w b s)) ! b = objects w ! b"
    using b by (simp add: PathBuilder_truediv_def init_objects nth_append)
  have len: "length (objects (fst (PathBuilder_truediv w b s))) = Suc (length (objects w))"
    by (simp add: PathBuilder_truediv_def init_objects)
  have new: "r \<noteq> b \<and> r = length (objects w)
       \<and> length (objects (fst (PathBuilder_truediv w b s))) = Suc r
       \<and> path (objects (fst (PathBuilder_truediv w b s)) ! r) =
           posixpath_join (path (objects w ! b)) [s]"
    if r: "snd (PathBuilder_truediv w b s) = Inr r" for r
  proof -
    have "r = length (objects w)"
      using r unfolding PathBuilder_truediv_def by (rule init_address)
    then show ?thesis using b len truediv_path [OF r] by simp
  qed
  show "take (length (objects w)) (objects (fst (PathBuilder_truediv w b s))) = objects w
     \<and> take (length (objects w)) (objects (fst (PathBuilder_init w names))) = objects w
     \<and> objects (fst (PathBuilder_add w b s)) = objects w
     \<and> objects (fst (PathBuilder_truediv w b s)) ! b = objects w ! b
     \<and> (\<forall>r. snd (PathBuilder_truediv w b s) = Inr r \<longrightarrow>
            r \<noteq> b \<and> r = length (objects w)
            \<and> length (objects (fst (PathBuilder_truediv w b s))) = Suc r
            \<and> path (objects (fst (PathBuilder_truediv w b s)) ! r) =
                posixpath_join (path (objects w ! b)) [s])"
    using keep same new by (simp add: init_keeps_objects PathBuilder_add_def)
qed

theorem truediv_new_instance_witness:
  "(0::nat) < length (objects demo_world)
   \<and> snd (PathBuilder_truediv demo_world 0 ''sub'') = Inr 1
   \<and> objects (fst (PathBuilder_truediv demo_world 0 ''sub'')) =
       [\<lparr>path = ''/tmp''\<rparr>, \<lparr>path = ''/tmp/sub''\<rparr>]"
proof -
  have a: "(0::nat) < length (objects demo_world)" by code_simp
  have b: "snd (PathBuilder_truediv demo_world 0 ''sub'') = Inr 1" by code_simp
  have c: "posixpath_join (path (objects demo_world ! 0)) [''sub''] = ''/tmp/sub''" by code_simp
  have d: "objects demo_world = [\<lparr>path = ''/tmp''\<rparr>]" by (simp add: demo_world_def)
  from truediv_new_instance_receiver_unchanged [of 0 demo_world "''sub''" "[]"] a b c d
  have "length (objects (fst (PathBuilder_truediv demo_world 0 ''sub''))) = 2"
    and "objects (fst (PathBuilder_truediv demo_world 0 ''sub'')) ! 0 = \<lparr>path = ''/tmp''\<rparr>"
    and "path (objects (fst (PathBuilder_truediv demo_world 0 ''sub'')) ! 1) = ''/tmp/sub''"
    by auto
  then have "objects (fst (PathBuilder_truediv demo_world 0 ''sub'')) =
       [\<lparr>path = ''/tmp''\<rparr>, \<lparr>path = ''/tmp/sub''\<rparr>]"
    by (intro nth_equalityI) (auto simp: less_Suc_eq numeral_2_eq_2)
  then show ?thesis using a b by simp
qed

section \<open>Facts about iteration\<close>



lemma drain_finite:
  "nxt (k + n) = None \<Longrightarrow> (\<And>j. j < n \<Longrightarrow> nxt (k + j) \<noteq> None) \<Longrightarrow>
   drain nxt k acc = Some (acc @ map (\<lambda>j. the (nxt j)) [k..<k + n])"
proof (induction n arbitrary: k acc)
  case 0
  then show ?case by (subst drain.simps) simp
next
  case (Suc n)
  from Suc.prems(2) [of 0] obtain v where v: "nxt k = Some v" by auto
  have "drain nxt (Suc k) (acc @ [v]) = Some ((acc @ [v]) @ map (\<lambda>j. the (nxt j)) [Suc k..<Suc k + n])"
  proof (rule Suc.IH)
    show "nxt (Suc k + n) = None" using Suc.prems(1) by simp
    show "nxt (Suc k + j) \<noteq> None" if "j < n" for j using Suc.prems(2) [of "Suc j"] that by simp
  qed
  then show ?case using v by (subst drain.simps) (simp add: upt_rec [of k])
qed

lemma drain_nth_or_stop: "drain (nth_or_stop xs) 0 [] = Some xs"
proof -
  have "drain (nth_or_stop xs) 0 [] = Some ([] @ map (\<lambda>j. the (nth_or_stop xs j)) [0..<0 + length xs])"
    by (rule drain_finite) (simp_all add: nth_or_stop_def)
  moreover have "map (\<lambda>j. the (nth_or_stop xs j)) [0..<length xs] = xs"
    by (rule nth_equalityI) (simp_all add: nth_or_stop_def)
  ultimately show ?thesis by simp
qed

lemma exhausted_lists: "lists (exhausted h obj) = lists h"
  by (cases obj) (simp_all add: exhausted_def)

lemma py_list_iteration:
  "isinstance_Iterable x \<Longrightarrow>
   py_list h x =
     (case iteration h x of
        None \<Rightarrow> None
      | Some xs \<Rightarrow> Some (Inr ((exhausted h x)\<lparr>lists := lists h @ [xs]\<rparr>, PList (length (lists h)))))"
  by (cases x)
    (simp_all add: py_list_def iteration_def py_iter_def isinstance_Iterable_def exhausted_lists
      split: option.splits)


text \<open>
  C5. For a list \<open>x\<close>, \<^verbatim>\<open>listify(x)\<close> is \<open>x\<close> itself: the same address comes back and the
  heap is what it was, so nothing is copied. For a tuple the result is not the tuple: it
  is a list created by the call, holding the elements of the tuple in order.
\<close>

theorem listify_list_is_identity:
  "(isinstance_list x \<longrightarrow> listify h x = Some (Inr (h, x)))
   \<and> listify h (PTuple xs) =
       Some (Inr (h\<lparr>lists := lists h @ [xs]\<rparr>, PList (length (lists h))))"
proof -
  have "iteration h (PTuple xs) = Some xs"
    by (simp add: iteration_def py_iter_def drain_nth_or_stop)
  then have "py_list h (PTuple xs) = Some (Inr (h\<lparr>lists := lists h @ [xs]\<rparr>, PList (length (lists h))))"
    by (simp add: py_list_iteration isinstance_Iterable_def exhausted_def)
  then show ?thesis
    by (simp add: listify_def isinstance_list_def isinstance_str_def isinstance_Iterable_def)
qed

theorem listify_list_witness:
  "isinstance_list (PList 0) \<and> listify demo_heap (PList 0) = Some (Inr (demo_heap, PList 0))"
proof -
  have "isinstance_list (PList 0)" by (simp add: isinstance_list_def)
  then show ?thesis using listify_list_is_identity [of "PList 0" demo_heap "[]"] by simp
qed

theorem listify_tuple_is_copied:
  "listify demo_heap (PTuple [PInt 1, PInt 2]) \<noteq> Some (Inr (demo_heap, PTuple [PInt 1, PInt 2]))
   \<and> map_option (map_sum id snd) (listify demo_heap (PTuple [PInt 1, PInt 2])) = Some (Inr (PList 1))"
proof -
  have "map_option (map_sum id snd) (listify demo_heap (PTuple [PInt 1, PInt 2])) = Some (Inr (PList 1))"
    by code_simp
  then show ?thesis by auto
qed




section \<open>Construction and the file system\<close>

lemma init_fsys:
  "fsys (fst (PathBuilder_init w names)) =
     fst (os_makedirs (fsys w)
       (posixpath_join (hd (if names = [] then [''.''] else names))
                       (tl (if names = [] then [''.''] else names))) True)"
  by (simp add: PathBuilder_init_def Let_def)

lemma init_result:
  "(snd (PathBuilder_init w names) = Inr a) =
     (a = length (objects w) \<and>
      snd (os_makedirs (fsys w)
        (posixpath_join (hd (if names = [] then [''.''] else names))
                        (tl (if names = [] then [''.''] else names))) True) = None)"
  by (auto simp: PathBuilder_init_def Let_def split: option.splits)

lemma init_new_path:
  "path (objects (fst (PathBuilder_init w names)) ! length (objects w)) =
     posixpath_join (hd (if names = [] then [''.''] else names))
                    (tl (if names = [] then [''.''] else names))"
  by (simp add: init_objects)


lemma init_makes_directory:
  assumes wf: "well_formed (fsys w)"
    and ok: "snd (PathBuilder_init w names) = Inr a"
    and nd: "''..'' \<notin> set (components (path (objects (fst (PathBuilder_init w names)) ! a)))"
  shows "path_isdir (fsys (fst (PathBuilder_init w names)))
           (path (objects (fst (PathBuilder_init w names)) ! a))"
proof -
  let ?p = "posixpath_join (hd (if names = [] then [''.''] else names))
                           (tl (if names = [] then [''.''] else names))"
  from ok have a: "a = length (objects w)" and r: "snd (os_makedirs (fsys w) ?p True) = None"
    by (simp_all add: init_result)
  have p: "path (objects (fst (PathBuilder_init w names)) ! a) = ?p"
    unfolding a by (rule init_new_path)
  from nd have "''..'' \<notin> set (components ?p)" unfolding p .
  with wf have "path_isdir (fst (os_makedirs (fsys w) ?p True)) ?p"
    using r by (rule makedirs_isdir)
  then show ?thesis unfolding p init_fsys .
qed







lemma demo_well_formed: "well_formed (fsys demo_world)"
  by (simp add: well_formed_def demo_world_def demo_fs_def node_at_def)



section \<open>The scenario of the specification\<close>

lemma absolute_entry_exists:
  assumes wf: "well_formed fs" and nul: "CHR 0x00 \<notin> set p" and abs: "startswith p sep"
    and c: "components p = [] # cs" and cs: "cs \<noteq> []" "\<forall>x\<in>set cs. normal x \<and> x \<noteq> ''..''"
  shows "path_exists fs p = (node_at fs cs \<noteq> None)"
proof -
  have p: "p \<noteq> []" using abs by (auto simp: startswith_def)
  have st: "start_of fs p = []" using abs by (simp add: start_of_def)
  have nd: "''..'' \<notin> set (components p)" using c cs(2) by auto
  have f: "filter normal (components p) = cs" using c cs(2) by (simp add: normal_def)
  show ?thesis
  proof
    assume "path_exists fs p"
    then obtain l n where w: "walk fs (start_of fs p) (components p) = Inr l"
      and n: "node_at fs l = Some n"
      by (auto simp: path_exists_def os_stat_def split: if_splits sum.splits option.splits)
    from walk_loc [OF nd w] have "l = cs" by (simp add: st f)
    with n show "node_at fs cs \<noteq> None" by simp
  next
    assume ex: "node_at fs cs \<noteq> None"
    then obtain n where n: "node_at fs cs = Some n" by auto
    have dirs: "node_at fs (take k cs) = Some Dir" if "k < length cs" for k
      using wf ex that by (rule well_formed_ancestors)
    have "walk fs (take k cs) (drop k cs) = Inr cs" if "k \<le> length cs" for k
      using that
    proof (induction "length cs - k" arbitrary: k)
      case 0
      then show ?case by simp
    next
      case (Suc d)
      then have k: "k < length cs" by simp
      then have dk: "drop k cs = cs ! k # drop (Suc k) cs" by (simp add: Cons_nth_drop_Suc)
      have "normal (cs ! k) \<and> cs ! k \<noteq> ''..''" using cs(2) k by simp
      then have "step (take k cs) (cs ! k) = take (Suc k) cs"
        using k by (simp add: step_def normal_def take_Suc_conv_app_nth)
      moreover have "walk fs (take (Suc k) cs) (drop (Suc k) cs) = Inr cs"
        using Suc k by (intro Suc.hyps(1)) simp_all
      ultimately show ?case using dirs [OF k] by (simp add: dk)
    qed
    from this [of 0] have "walk fs [] cs = Inr cs" by simp
    then have w: "walk fs (start_of fs p) (components p) = Inr cs"
      by (simp add: st c node_at_root step_def)
    from nul p w n show "path_exists fs p" by (rule exists_intro)
  qed
qed

lemma init_unchanged:
  assumes "''..'' \<notin> set (components (posixpath_join (hd (if names = [] then [''.''] else names))
                       (tl (if names = [] then [''.''] else names))))"
    and "\<not> prefix l (start_of (fsys w) (posixpath_join (hd (if names = [] then [''.''] else names))
                       (tl (if names = [] then [''.''] else names)))
          @ filter normal (components (posixpath_join (hd (if names = [] then [''.''] else names))
                       (tl (if names = [] then [''.''] else names)))))"
  shows "node_at (fsys (fst (PathBuilder_init w names))) l = node_at (fsys w) l"
  using assms makedirs_changes unfolding init_fsys by blast

text \<open>
  C1. \<^verbatim>\<open>PathBuilder("/tmp", "pkg") / "sub" + "file.txt"\<close>, in a file system that is a tree:
  when the two constructions succeed, the result is the string \<^verbatim>\<open>/tmp/pkg/sub/file.txt\<close>,
  afterwards \<^verbatim>\<open>/tmp/pkg\<close> and \<^verbatim>\<open>/tmp/pkg/sub\<close> are directories, and the entry
  \<^verbatim>\<open>/tmp/pkg/sub/file.txt\<close> is what it was before the chain: it exists afterwards only if
  it existed before.
\<close>

theorem scenario_chain:
  assumes wf: "well_formed (fsys w)"
    and ok1: "snd (PathBuilder_init w [''/tmp'', ''pkg'']) = Inr b1"
    and ok2: "snd (PathBuilder_truediv (fst (PathBuilder_init w [''/tmp'', ''pkg''])) b1 ''sub'')
               = Inr b2"
  shows
    "(let w1 = fst (PathBuilder_init w [''/tmp'', ''pkg'']);
          w2 = fst (PathBuilder_truediv w1 b1 ''sub'');
          r = PathBuilder_add w2 b2 ''file.txt''
      in snd r = ''/tmp/pkg/sub/file.txt''
         \<and> path_isdir (fsys (fst r)) ''/tmp/pkg''
         \<and> path_isdir (fsys (fst r)) ''/tmp/pkg/sub''
         \<and> node_at (fsys (fst r)) [''tmp'', ''pkg'', ''sub'', ''file.txt'']
             = node_at (fsys w) [''tmp'', ''pkg'', ''sub'', ''file.txt'']
         \<and> path_exists (fsys (fst r)) ''/tmp/pkg/sub/file.txt''
             = path_exists (fsys w) ''/tmp/pkg/sub/file.txt'')"
proof -
  let ?w1 = "fst (PathBuilder_init w [''/tmp'', ''pkg''])"
  let ?w2 = "fst (PathBuilder_init ?w1 [''/tmp/pkg/sub''])"
  let ?loc = "[''tmp'', ''pkg'', ''sub'', ''file.txt'']"
  have j1: "posixpath_join ''/tmp'' [''pkg''] = ''/tmp/pkg''" by code_simp
  have j2: "posixpath_join ''/tmp/pkg'' [''sub''] = ''/tmp/pkg/sub''" by code_simp
  have j3: "posixpath_join ''/tmp/pkg/sub'' [''file.txt''] = ''/tmp/pkg/sub/file.txt''"
    by code_simp
  have c1: "components ''/tmp/pkg'' = [[], ''tmp'', ''pkg'']" by code_simp
  have c2: "components ''/tmp/pkg/sub'' = [[], ''tmp'', ''pkg'', ''sub'']" by code_simp
  have c3: "components ''/tmp/pkg/sub/file.txt'' = [] # ?loc" by code_simp
  have s: "start_of fs ''/tmp/pkg'' = []" "start_of fs ''/tmp/pkg/sub'' = []" for fs
    by (simp_all add: start_of_def startswith_def sep_def)
  from ok1 have b1: "b1 = length (objects w)" by (simp add: init_result)
  have p1: "path (objects ?w1 ! b1) = ''/tmp/pkg''"
    using init_new_path [of w "[''/tmp'', ''pkg'']"] by (simp add: b1 j1)
  have t: "PathBuilder_truediv ?w1 b1 ''sub'' = PathBuilder_init ?w1 [''/tmp/pkg/sub'']"
    by (simp add: PathBuilder_truediv_def p1 j2)
  from ok2 have ok2': "snd (PathBuilder_init ?w1 [''/tmp/pkg/sub'']) = Inr b2" by (simp only: t)
  then have b2: "b2 = length (objects ?w1)" by (simp add: init_result)
  have p2: "path (objects ?w2 ! b2) = ''/tmp/pkg/sub''"
    using init_new_path [of ?w1 "[''/tmp/pkg/sub'']"] by (simp add: b2 posixpath_join_def)
  have wf1: "well_formed (fsys ?w1)"
    unfolding init_fsys using wf by (rule makedirs_well_formed)
  have wf2: "well_formed (fsys ?w2)"
    unfolding init_fsys [of ?w1] using wf1 by (rule makedirs_well_formed)
  have "''..'' \<notin> set (components (path (objects ?w2 ! b2)))" by (simp add: p2 c2)
  with wf1 ok2' have "path_isdir (fsys ?w2) (path (objects ?w2 ! b2))"
    by (rule init_makes_directory)
  then have d2: "path_isdir (fsys ?w2) ''/tmp/pkg/sub''" by (simp only: p2)
  have d1: "path_isdir (fsys ?w2) ''/tmp/pkg''"
    by (rule isdir_head [where tail = "''sub''" and m = 0 and k = 0, OF d2])
      (simp_all add: sep_def)
  have u1: "node_at (fsys ?w1) ?loc = node_at (fsys w) ?loc"
    by (rule init_unchanged) (simp_all add: j1 c1 s normal_def)
  have u2: "node_at (fsys ?w2) ?loc = node_at (fsys ?w1) ?loc"
    by (rule init_unchanged) (simp_all add: posixpath_join_def c2 s normal_def)
  have e: "path_exists fs ''/tmp/pkg/sub/file.txt'' = (node_at fs ?loc \<noteq> None)"
    if "well_formed fs" for fs
    using that
    by (rule absolute_entry_exists [where cs = ?loc])
      (simp_all add: c3 startswith_def sep_def normal_def)
  have a: "PathBuilder_add ?w2 b2 ''file.txt'' = (?w2, ''/tmp/pkg/sub/file.txt'')"
    by (simp add: PathBuilder_add_def p2 j3)
  show ?thesis
    unfolding Let_def t a using d1 d2 u1 u2 e [OF wf] e [OF wf2] by simp
qed

theorem scenario_witness:
  "well_formed (fsys demo_world)
   \<and> snd (PathBuilder_init demo_world [''/tmp'', ''pkg'']) = Inr 1
   \<and> snd (PathBuilder_truediv (fst (PathBuilder_init demo_world [''/tmp'', ''pkg''])) 1 ''sub'')
       = Inr 2
   \<and> snd (PathBuilder_add
        (fst (PathBuilder_truediv (fst (PathBuilder_init demo_world [''/tmp'', ''pkg''])) 1 ''sub''))
        2 ''file.txt'') = ''/tmp/pkg/sub/file.txt''
   \<and> path_isdir (fsys (fst (PathBuilder_truediv
        (fst (PathBuilder_init demo_world [''/tmp'', ''pkg''])) 1 ''sub''))) ''/tmp/pkg''
   \<and> path_isdir (fsys (fst (PathBuilder_truediv
        (fst (PathBuilder_init demo_world [''/tmp'', ''pkg''])) 1 ''sub''))) ''/tmp/pkg/sub''
   \<and> \<not> path_exists (fsys (fst (PathBuilder_truediv
        (fst (PathBuilder_init demo_world [''/tmp'', ''pkg''])) 1 ''sub''))) ''/tmp/pkg/sub/file.txt''"
proof -
  have r1: "snd (PathBuilder_init demo_world [''/tmp'', ''pkg'']) = Inr 1" by code_simp
  have r2: "snd (PathBuilder_truediv (fst (PathBuilder_init demo_world [''/tmp'', ''pkg''])) 1 ''sub'')
       = Inr 2"
    by code_simp
  have n: "\<not> path_exists (fsys demo_world) ''/tmp/pkg/sub/file.txt''" by code_simp
  from scenario_chain [OF demo_well_formed r1 r2]
  show ?thesis using r1 r2 n demo_well_formed by (simp add: Let_def PathBuilder_add_def)
qed

end
